theory Spec2Isabelle
  imports Main "HOL-Library.AList" "HOL-Library.Multiset"
begin

section \<open>Values of the nested dictionary\<close>

text \<open>
  A data tree of \<^verbatim>\<open>SphinxReport/DataTree.py\<close> is a nested ordered dictionary. Keys are
  strings, integers or tuples of keys. A value is \<^verbatim>\<open>None\<close>, an integer, a string, a
  sequence, a dictionary (an association list in insertion order) or a tabular object.
  A tabular object is kept as the constructor call that built it,
  \<^verbatim>\<open>pandas.DataFrame(values, columns=..., index=...)\<close>, and is opaque otherwise:
  pandas is not part of the repository, so only the explicit \<^verbatim>\<open>isinstance\<close> tests of
  the source are modelled for it, and the general theorems below are stated for
  trees without tabular objects.
\<close>

datatype key = KStr string | KInt int | KTuple "key list"

datatype pyval =
    PNone
  | PInt int
  | PStr string
  | PList "pyval list"
  | PDict "(key \<times> pyval) list"
  | PFrame pyval pyval pyval

datatype error =
    KeyError
  | TypeError
  | IndexError
  | AttributeError
  | ValueError
  | NotImplementedError nat nat

type_synonym 'a result = "error + 'a"

text \<open>A key seen as a value, for \<^verbatim>\<open>key in sequence\<close> and for table cells.\<close>

fun key_val :: "key \<Rightarrow> pyval" where
  "key_val (KStr s) = PStr s"
| "key_val (KInt i) = PInt i"
| "key_val (KTuple ks) = PList (map key_val ks)"

fun is_dict :: "pyval \<Rightarrow> bool" where
  "is_dict (PDict kvs) = True"
| "is_dict v = False"

text \<open>\<^verbatim>\<open>seq[i]\<close> of Python: a negative index counts from the end.\<close>

definition py_index :: "nat \<Rightarrow> int \<Rightarrow> nat option" where
  "py_index n i =
     (let j = (if i < 0 then i + int n else i)
      in if 0 \<le> j \<and> j < int n then Some (nat j) else None)"

text \<open>\<^verbatim>\<open>work[x]\<close>.\<close>

fun getitem :: "pyval \<Rightarrow> key \<Rightarrow> pyval result" where
  "getitem (PDict kvs) k = (case map_of kvs k of None \<Rightarrow> Inl KeyError | Some v \<Rightarrow> Inr v)"
| "getitem (PList xs) (KInt i) =
     (case py_index (length xs) i of None \<Rightarrow> Inl IndexError | Some j \<Rightarrow> Inr (xs ! j))"
| "getitem (PStr s) (KInt i) =
     (case py_index (length s) i of None \<Rightarrow> Inl IndexError | Some j \<Rightarrow> Inr (PStr [s ! j]))"
| "getitem v k = Inl TypeError"

text \<open>\<^verbatim>\<open>work[x] = data\<close>, returning the updated container. A dictionary keeps the
  position of a key it already has and appends a new key.\<close>

fun setitem :: "pyval \<Rightarrow> key \<Rightarrow> pyval \<Rightarrow> pyval result" where
  "setitem (PDict kvs) k v = Inr (PDict (AList.update k v kvs))"
| "setitem (PList xs) (KInt i) v =
     (case py_index (length xs) i of None \<Rightarrow> Inl IndexError | Some j \<Rightarrow> Inr (PList (xs[j := v])))"
| "setitem w k v = Inl TypeError"

text \<open>\<^verbatim>\<open>len(x)\<close>; the length of a tabular object is the length of its index, or of its
  values when it was built without one.\<close>

fun py_len :: "pyval \<Rightarrow> nat result" where
  "py_len (PDict kvs) = Inr (length kvs)"
| "py_len (PList xs) = Inr (length xs)"
| "py_len (PStr s) = Inr (length s)"
| "py_len (PFrame d c (PList ix)) = Inr (length ix)"
| "py_len (PFrame (PList rows) c ix) = Inr (length rows)"
| "py_len (PFrame d c ix) = Inr 0"
| "py_len v = Inl TypeError"

text \<open>\<^verbatim>\<open>label in x\<close>: a key of a dictionary, an element of a sequence, a substring of
  a string.\<close>

fun is_substring :: "string \<Rightarrow> string \<Rightarrow> bool" where
  "is_substring s [] = (s = [])"
| "is_substring s (c # cs) = (take (length s) (c # cs) = s \<or> is_substring s cs)"

fun py_contains :: "pyval \<Rightarrow> key \<Rightarrow> bool result" where
  "py_contains (PDict kvs) k = Inr (k \<in> set (map fst kvs))"
| "py_contains (PList xs) k = Inr (key_val k \<in> set xs)"
| "py_contains (PStr s) (KStr t) = Inr (is_substring t s)"
| "py_contains v k = Inl TypeError"

section \<open>Analysis of paths\<close>

text \<open>\<^verbatim>\<open>unique\<close>: the first occurrence of every element, in order.\<close>

fun unique_from :: "'a list \<Rightarrow> 'a list \<Rightarrow> 'a list" where
  "unique_from s [] = []"
| "unique_from s (x # xs) = (if x \<in> set s then unique_from s xs else x # unique_from (x # s) xs)"

definition unique :: "'a list \<Rightarrow> 'a list" where
  "unique iterables = unique_from [] iterables"

text \<open>
  One sweep of \<^verbatim>\<open>getPaths\<close> over \<^verbatim>\<open>this_level\<close>: values without \<^verbatim>\<open>keys\<close> are
  filtered out, a tabular object ends the sweep (\<^verbatim>\<open>break\<close>), a dictionary adds its
  keys to \<^verbatim>\<open>l\<close> and its values to \<^verbatim>\<open>next_level\<close>.
\<close>

fun sweep :: "pyval list \<Rightarrow> key list \<times> pyval list" where
  "sweep [] = ([], [])"
| "sweep (PDict kvs # xs) = (map fst kvs @ fst (sweep xs), map snd kvs @ snd (sweep xs))"
| "sweep (PFrame d c i # xs) = ([], [])"
| "sweep (x # xs) = sweep xs"

lemma sweep_size:
  "fst (sweep xs) \<noteq> [] \<Longrightarrow> size_list size (snd (sweep xs)) < size_list size xs"
  "size_list size (snd (sweep xs)) \<le> size_list size xs"
proof (induction xs rule: sweep.induct)
  case (2 kvs xs)
  have a: "size_list size (map snd kvs) \<le> size_list (size_prod (\<lambda>_. 0) size) kvs"
    by (induction kvs) auto
  {
    case 1
    from a "2.IH"(2) show ?case by (simp add: size_list_append)
  next
    case 2
    from a "2.IH"(2) show ?case by (simp add: size_list_append)
  }
qed auto

function getPaths_loop :: "pyval list \<Rightarrow> key list list" where
  "getPaths_loop this_level =
     (if fst (sweep this_level) = [] then []
      else unique (fst (sweep this_level)) # getPaths_loop (snd (sweep this_level)))"
  by pat_completeness auto
termination
  by (relation "measure (size_list size)") (auto simp: sweep_size)

declare getPaths_loop.simps [simp del]

definition getPaths :: "pyval \<Rightarrow> key list list" where
  "getPaths work = getPaths_loop [work]"

text \<open>
  \<^verbatim>\<open>getNodes\<close>: breadth-first over a queue of \<^verbatim>\<open>(path, depth, (key, value))\<close>; every
  entry at depth \<^verbatim>\<open>level\<close> is yielded, the items of a dictionary are queued behind.
\<close>

function getNodes_loop :: "(key list \<times> int \<times> key \<times> pyval) list \<Rightarrow> int \<Rightarrow> (key list \<times> pyval) list" where
  "getNodes_loop [] level = []"
| "getNodes_loop ((p, l, k, v) # stack) level =
     (if l = level then [(p @ [k], v)] else []) @
     getNodes_loop
       (case v of
          PDict kvs \<Rightarrow> stack @ map (\<lambda>x. (p @ [k], l + 1, fst x, snd x)) kvs
        | _ \<Rightarrow> stack)
       level"
  by pat_completeness auto
termination
proof (relation "measure (\<lambda>(stack, level). size_list (\<lambda>(p, l, k, v). Suc (size v)) stack)")
  fix p :: "key list" and l :: int and k :: key and v :: pyval and stack level
  have a: "size_list (\<lambda>(p, l, k, v). Suc (size v)) (map (\<lambda>x. (q, m, fst x, snd x)) kvs)
      \<le> size_list (size_prod (\<lambda>_. 0) size) kvs" for q m kvs
    by (induction kvs) auto
  show "((case v of
            PDict kvs \<Rightarrow> stack @ map (\<lambda>x. (p @ [k], l + 1, fst x, snd x)) kvs
          | _ \<Rightarrow> stack, level),
         (p, l, k, v) # stack, level)
        \<in> measure (\<lambda>(stack, level). size_list (\<lambda>(p, l, k, v). Suc (size v)) stack)"
  proof (cases v)
    case (PDict kvs)
    from a [of "p @ [k]" "l + 1" kvs] show ?thesis
      by (simp add: PDict size_list_append)
  qed simp_all
qed simp

text \<open>\<^verbatim>\<open>work.items()\<close>, \<^verbatim>\<open>work.keys()\<close> and \<^verbatim>\<open>work.values()\<close> exist for dictionaries.\<close>

fun items :: "pyval \<Rightarrow> (key \<times> pyval) list result" where
  "items (PDict kvs) = Inr kvs"
| "items v = Inl AttributeError"

definition getNodes :: "pyval \<Rightarrow> int \<Rightarrow> (key list \<times> pyval) list result" where
  "getNodes work level =
     (case items work of
        Inl e \<Rightarrow> Inl e
      | Inr kvs \<Rightarrow> Inr (getNodes_loop (map (\<lambda>x. ([], 0, fst x, snd x)) kvs) level))"

text \<open>
  \<^verbatim>\<open>getDepths\<close>: depth-first over a stack whose top is the head of the list here
  (\<^verbatim>\<open>stack.pop()\<close> takes the last element, \<^verbatim>\<open>stack.extend\<close> appends).
\<close>

function getDepths_loop :: "(nat \<times> pyval) list \<Rightarrow> nat list \<Rightarrow> nat list" where
  "getDepths_loop [] levels = levels"
| "getDepths_loop ((level, v) # stack) levels =
     (case v of
        PDict kvs \<Rightarrow> getDepths_loop (rev (map (\<lambda>x. (level + 1, snd x)) kvs) @ stack) levels
      | _ \<Rightarrow> getDepths_loop stack (levels @ [level]))"
  by pat_completeness auto
termination
proof (relation "measure (\<lambda>(stack, levels). size_list (\<lambda>(l, v). Suc (size v)) stack)")
  fix level :: nat and v :: pyval and stack :: "(nat \<times> pyval) list" and levels :: "nat list" and kvs
  assume v: "v = PDict kvs"
  have a: "size_list (\<lambda>(l, v). Suc (size v)) (rev (map (\<lambda>x. (m, snd x)) kvs))
      \<le> size_list (size_prod (\<lambda>_. 0) size) kvs" for m :: nat
    by (induction kvs) (auto simp: size_list_append)
  from a [of "level + 1"]
  show "((rev (map (\<lambda>x. (level + 1, snd x)) kvs) @ stack, levels), (level, v) # stack, levels)
        \<in> measure (\<lambda>(stack, levels). size_list (\<lambda>(l, v). Suc (size v)) stack)"
    by (simp add: v size_list_append)
qed simp_all

definition getDepths :: "pyval \<Rightarrow> nat list result" where
  "getDepths work =
     (case items work of
        Inl e \<Rightarrow> Inl e
      | Inr kvs \<Rightarrow> Inr (getDepths_loop (rev (map (\<lambda>x. (0, snd x)) kvs)) []))"

section \<open>Reading and writing a path\<close>

text \<open>The module's \<^verbatim>\<open>getLeaf\<close> turns a \<^verbatim>\<open>KeyError\<close> and a \<^verbatim>\<open>TypeError\<close> into \<^verbatim>\<open>None\<close>.\<close>

fun getLeaf :: "pyval \<Rightarrow> key list \<Rightarrow> pyval result" where
  "getLeaf work [] = Inr work"
| "getLeaf work (x # path) =
     (case getitem work x of
        Inl KeyError \<Rightarrow> Inr PNone
      | Inl TypeError \<Rightarrow> Inr PNone
      | Inl e \<Rightarrow> Inl e
      | Inr w \<Rightarrow> getLeaf w path)"

text \<open>\<^verbatim>\<open>DataTree.getLeaf\<close> catches the \<^verbatim>\<open>KeyError\<close> only.\<close>

fun DataTree_getLeaf :: "pyval \<Rightarrow> key list \<Rightarrow> pyval result" where
  "DataTree_getLeaf work [] = Inr work"
| "DataTree_getLeaf work (x # path) =
     (case getitem work x of
        Inl KeyError \<Rightarrow> Inr PNone
      | Inl e \<Rightarrow> Inl e
      | Inr w \<Rightarrow> DataTree_getLeaf w path)"

text \<open>
  \<^verbatim>\<open>setLeaf\<close> walks \<^verbatim>\<open>path[:-1]\<close>, creating an empty dictionary where a key is
  missing, and assigns at \<^verbatim>\<open>path[-1]\<close>. The source mutates the containers it walks
  through; here every container on the way is returned updated. With an empty path,
  \<^verbatim>\<open>path[-1]\<close> raises \<^verbatim>\<open>IndexError\<close>.
\<close>

fun setLeaf :: "pyval \<Rightarrow> key list \<Rightarrow> pyval \<Rightarrow> pyval result" where
  "setLeaf work [] data = Inl IndexError"
| "setLeaf work [k] data = setitem work k data"
| "setLeaf work (x # path) data =
     (case getitem work x of
        Inr w \<Rightarrow>
          (case setLeaf w path data of Inl e \<Rightarrow> Inl e | Inr w' \<Rightarrow> setitem work x w')
      | Inl KeyError \<Rightarrow>
          (case setLeaf (PDict []) path data of Inl e \<Rightarrow> Inl e | Inr w' \<Rightarrow> setitem work x w')
      | Inl e \<Rightarrow> Inl e)"

text \<open>\<^verbatim>\<open>DataTree.setLeaf\<close> on the tree's \<^verbatim>\<open>_data\<close>: an empty path replaces it.\<close>

definition DataTree_setLeaf :: "pyval \<Rightarrow> key list \<Rightarrow> pyval \<Rightarrow> pyval result" where
  "DataTree_setLeaf self_data path data =
     (if length path = 0 then Inr data else setLeaf self_data path data)"

text \<open>\<^verbatim>\<open>itertools.product(*lists)\<close> is \<^const>\<open>product_lists\<close>: the first list varies slowest.\<close>

definition getPrefixes :: "pyval \<Rightarrow> nat \<Rightarrow> key list list" where
  "getPrefixes work level = product_lists (take level (getPaths work))"

section \<open>Structural reduction\<close>

text \<open>
  \<^verbatim>\<open>removeEmptyLeaves\<close> returns whether \<^verbatim>\<open>work\<close> is kept, and prunes it in place: the
  pruned value is returned beside the flag. A dictionary deletes the labels whose value
  is not kept and is kept when a label is left. A tabular object is kept when its
  length is positive. Any other value is kept when
  \<^verbatim>\<open>work is not None or work != ""\<close>.
\<close>

fun removeEmptyLeaves :: "pyval \<Rightarrow> pyval \<times> bool" where
  "removeEmptyLeaves (PDict kvs) =
     (let kept = map (\<lambda>x. (fst x, fst (removeEmptyLeaves (snd x))))
                   (filter (\<lambda>x. snd (removeEmptyLeaves (snd x))) kvs)
      in (PDict kept, length kept \<noteq> 0))"
| "removeEmptyLeaves (PFrame d c i) =
     (PFrame d c i, (case py_len (PFrame d c i) of Inl e \<Rightarrow> False | Inr n \<Rightarrow> n > 0))"
| "removeEmptyLeaves work = (work, work \<noteq> PNone \<or> work \<noteq> PStr [])"

text \<open>
  The object found at \<^verbatim>\<open>path\<close> is mutated in place by \<^verbatim>\<open>removeLevel\<close>; \<open>put\<close> writes
  the mutated object back where it was found.
\<close>

fun put :: "pyval \<Rightarrow> key list \<Rightarrow> pyval \<Rightarrow> pyval" where
  "put work [] v = v"
| "put work (x # path) v =
     (case getitem work x of
        Inl e \<Rightarrow> work
      | Inr w \<Rightarrow> (case setitem work x (put w path v) of Inl e \<Rightarrow> work | Inr work' \<Rightarrow> work'))"

text \<open>
  The loop over the keys of \<^verbatim>\<open>leaf\<close> in \<^verbatim>\<open>removeLevel\<close>. The state is
  \<^verbatim>\<open>work\<close>, the items of \<^verbatim>\<open>leaf\<close>, and whether \<^verbatim>\<open>leaf\<close> is still the object at
  \<^verbatim>\<open>path\<close>: \<^verbatim>\<open>setLeaf(work, path, d)\<close> puts \<^verbatim>\<open>d\<close> in its place, after which the
  loop goes on changing a dictionary that is no longer part of the tree.
\<close>

fun removeLevel_keys ::
  "key list \<Rightarrow> key list \<Rightarrow> pyval \<times> (key \<times> pyval) list \<times> bool \<Rightarrow> (pyval \<times> (key \<times> pyval) list \<times> bool) result" where
  "removeLevel_keys path [] st = Inr st"
| "removeLevel_keys path (key # keys) (work, leaf, attached) =
     (case map_of leaf key of
        None \<Rightarrow> Inl KeyError
      | Some d \<Rightarrow>
          (case d of
             PDict sub \<Rightarrow>
               removeLevel_keys path keys
                 (work, fold (\<lambda>x. AList.update (fst x) (snd x)) sub (AList.delete key leaf), attached)
           | _ \<Rightarrow>
               (case setLeaf (if attached then put work path (PDict (AList.delete key leaf)) else work)
                       path d of
                  Inl e \<Rightarrow> Inl e
                | Inr work' \<Rightarrow> removeLevel_keys path keys (work', AList.delete key leaf, False))))"

fun removeLevel_paths :: "key list list \<Rightarrow> pyval \<Rightarrow> pyval result" where
  "removeLevel_paths [] work = Inr work"
| "removeLevel_paths (path # prefixes) work =
     (case getLeaf work path of
        Inl e \<Rightarrow> Inl e
      | Inr leaf \<Rightarrow>
          if leaf = PNone then removeLevel_paths prefixes work
          else
            (case items leaf of
               Inl e \<Rightarrow> Inl e
             | Inr kvs \<Rightarrow>
                 (case removeLevel_keys path (map fst kvs) (work, kvs, True) of
                    Inl e \<Rightarrow> Inl e
                  | Inr (work', leaf', attached) \<Rightarrow>
                      removeLevel_paths prefixes
                        (if attached then put work' path (PDict leaf') else work'))))"

definition removeLevel :: "pyval \<Rightarrow> nat \<Rightarrow> pyval result" where
  "removeLevel work level = removeLevel_paths (getPrefixes work level) work"

text \<open>
  The test of \<^verbatim>\<open>prune\<close> on one level: \<^verbatim>\<open>keep\<close> becomes true at the first prefix
  whose node has more than one entry or does not contain \<^verbatim>\<open>label\<close>.
\<close>

fun prune_keep :: "pyval \<Rightarrow> key \<Rightarrow> key list list \<Rightarrow> bool result" where
  "prune_keep data label [] = Inr False"
| "prune_keep data label (prefix # prefixes) =
     (case getLeaf data prefix of
        Inl e \<Rightarrow> Inl e
      | Inr leaves \<Rightarrow>
          if leaves = PNone then prune_keep data label prefixes
          else
            (case py_len leaves of
               Inl e \<Rightarrow> Inl e
             | Inr n \<Rightarrow>
                 if n > 1 then Inr True
                 else
                   (case py_contains leaves label of
                      Inl e \<Rightarrow> Inl e
                    | Inr b \<Rightarrow> if \<not> b then Inr True else prune_keep data label prefixes)))"

text \<open>The first loop of \<^verbatim>\<open>prune\<close>, over \<^verbatim>\<open>range(0, nlevels)\<close>.\<close>

fun prune_levels ::
  "pyval \<Rightarrow> key list list \<Rightarrow> key list \<Rightarrow> nat list \<Rightarrow> (nat \<times> key) list \<Rightarrow> (nat \<times> key) list result" where
  "prune_levels data data_paths ignore [] levels_to_prune = Inr levels_to_prune"
| "prune_levels data data_paths ignore (level # levels) levels_to_prune =
     (if length (data_paths ! level) = 1 then
        (let label = data_paths ! level ! 0 in
         if label \<in> set ignore then prune_levels data data_paths ignore levels levels_to_prune
         else
           (case prune_keep data label (getPrefixes data level) of
              Inl e \<Rightarrow> Inl e
            | Inr keep \<Rightarrow>
                prune_levels data data_paths ignore levels
                  (if \<not> keep then levels_to_prune @ [(level, label)] else levels_to_prune)))
      else prune_levels data data_paths ignore levels levels_to_prune)"

text \<open>The second loop of \<^verbatim>\<open>prune\<close>: the state is the tree, \<^verbatim>\<open>nlevels\<close> and \<^verbatim>\<open>pruned\<close>.\<close>

fun prune_remove ::
  "(nat \<times> key) list \<Rightarrow> pyval \<Rightarrow> nat \<Rightarrow> (nat \<times> key) list \<Rightarrow> (pyval \<times> (nat \<times> key) list) result" where
  "prune_remove [] data nlevels pruned = Inr (data, pruned)"
| "prune_remove ((level, label) # rest) data nlevels pruned =
     (if level = 0 \<and> nlevels = 1 then prune_remove rest data nlevels pruned
      else
        (case removeLevel data level of
           Inl e \<Rightarrow> Inl e
         | Inr data' \<Rightarrow> prune_remove rest data' (nlevels - 1) (pruned @ [(level, label)])))"

text \<open>\<^verbatim>\<open>prune\<close> returns \<^verbatim>\<open>pruned\<close>; the tree it has changed in place is returned with it.\<close>

definition prune :: "pyval \<Rightarrow> key list \<Rightarrow> (pyval \<times> (nat \<times> key) list) result" where
  "prune data0 ignore =
     (let data = fst (removeEmptyLeaves data0);
          data_paths = getPaths data;
          nlevels = length data_paths
      in case prune_levels data data_paths ignore [0..<nlevels] [] of
           Inl e \<Rightarrow> Inl e
         | Inr levels_to_prune \<Rightarrow> prune_remove (rev levels_to_prune) data nlevels [])"

section \<open>Transposition of two levels\<close>

text \<open>
  In \<^verbatim>\<open>swop\<close> a tuple may hold the placeholder \<^verbatim>\<open>None\<close>, which \<^verbatim>\<open>_f\<close> filters out:
  a tuple is a list of optional keys.
\<close>

definition swop_f :: "key option list \<Rightarrow> key list" where
  "swop_f p = List.map_filter id p"

definition swop_product :: "key list list \<Rightarrow> key option list list" where
  "swop_product ls =
     (if ls \<noteq> [] then map (map Some) (product_lists ls) else [[None]])"

text \<open>The loop over \<^verbatim>\<open>suffixes\<close>: the state is \<^verbatim>\<open>newtree\<close>.\<close>

fun swop_suffixes ::
  "pyval \<Rightarrow> key option list \<Rightarrow> key \<Rightarrow> key option list \<Rightarrow> key \<Rightarrow> key option list list \<Rightarrow> pyval \<Rightarrow> pyval result" where
  "swop_suffixes work prefix p1 infx p2 [] newtree = Inr newtree"
| "swop_suffixes work prefix p1 infx p2 (suffix # suffixes) newtree =
     (let oldpath = swop_f (prefix @ [Some p1] @ infx @ [Some p2] @ suffix);
          newpath = swop_f (prefix @ [Some p2] @ infx @ [Some p1] @ suffix)
      in case getLeaf work oldpath of
           Inl e \<Rightarrow> Inl e
         | Inr data \<Rightarrow>
             if data = PNone then swop_suffixes work prefix p1 infx p2 suffixes newtree
             else
               (case setLeaf newtree newpath data of
                  Inl e \<Rightarrow> Inl e
                | Inr newtree' \<Rightarrow> swop_suffixes work prefix p1 infx p2 suffixes newtree'))"

text \<open>The two outer loops, over \<^verbatim>\<open>(p1, p2)\<close> and over \<^verbatim>\<open>(prefix, infx)\<close>.\<close>

fun swop_inner ::
  "pyval \<Rightarrow> key \<Rightarrow> key \<Rightarrow> (key option list \<times> key option list) list \<Rightarrow> pyval \<Rightarrow> pyval result" where
  "swop_inner work p1 p2 [] newtree = Inr newtree"
| "swop_inner work p1 p2 ((prefix, infx) # rest) newtree =
     (case getLeaf work (swop_f (prefix @ [Some p1] @ infx @ [Some p2])) of
        Inl e \<Rightarrow> Inl e
      | Inr w \<Rightarrow>
          (let subpaths = getPaths w;
               suffixes = (if subpaths \<noteq> [] then map (\<lambda>k. [Some k]) (subpaths ! 0) else [[None]])
           in case swop_suffixes work prefix p1 infx p2 suffixes newtree of
                Inl e \<Rightarrow> Inl e
              | Inr newtree' \<Rightarrow> swop_inner work p1 p2 rest newtree'))"

fun swop_outer ::
  "pyval \<Rightarrow> (key \<times> key) list \<Rightarrow> (key option list \<times> key option list) list \<Rightarrow> pyval \<Rightarrow> pyval result" where
  "swop_outer work [] pis newtree = Inr newtree"
| "swop_outer work ((p1, p2) # rest) pis newtree =
     (case swop_inner work p1 p2 pis newtree of
        Inl e \<Rightarrow> Inl e
      | Inr newtree' \<Rightarrow> swop_outer work rest pis newtree')"

text \<open>
  \<^verbatim>\<open>swop\<close>; the levels are natural numbers here. With equal levels the source
  returns nothing, that is \<^verbatim>\<open>None\<close>.
\<close>

definition swop :: "pyval \<Rightarrow> nat \<Rightarrow> nat \<Rightarrow> pyval result" where
  "swop work level1 level2 =
     (let paths = getPaths work; nlevels = length paths in
      if nlevels \<le> level1 then Inl IndexError
      else if nlevels \<le> level2 then Inl IndexError
      else if level1 = level2 then Inr PNone
      else
        (let l1 = (if level1 > level2 then level2 else level1);
             l2 = (if level1 > level2 then level1 else level2);
             prefixes = swop_product (take l1 paths);
             infixes = swop_product (drop (l1 + 1) (take l2 paths))
         in swop_outer work (List.product (paths ! l1) (paths ! l2))
              (List.product prefixes infixes) (PDict [])))"

text \<open>
  \<^verbatim>\<open>DataTree.getPaths\<close> is \<^verbatim>\<open>getPaths\<close> on the tree's \<^verbatim>\<open>_data\<close> without the test for tabular
  objects: a tabular object has \<^verbatim>\<open>keys\<close>, and its \<^verbatim>\<open>values\<close>, which is not a method,
  cannot be called.
\<close>

fun DataTree_sweep :: "pyval list \<Rightarrow> (key list \<times> pyval list) result" where
  "DataTree_sweep [] = Inr ([], [])"
| "DataTree_sweep (PDict kvs # xs) =
     (case DataTree_sweep xs of
        Inl e \<Rightarrow> Inl e
      | Inr (l, next_level) \<Rightarrow> Inr (map fst kvs @ l, map snd kvs @ next_level))"
| "DataTree_sweep (PFrame d c i # xs) = Inl TypeError"
| "DataTree_sweep (x # xs) = DataTree_sweep xs"

lemma DataTree_sweep_size:
  "DataTree_sweep xs = Inr (l, next_level) \<Longrightarrow>
   size_list size next_level \<le> size_list size xs \<and>
   (l \<noteq> [] \<longrightarrow> size_list size next_level < size_list size xs)"
proof (induction xs arbitrary: l next_level rule: DataTree_sweep.induct)
  case (2 kvs xs)
  have a: "size_list size (map snd kvs) \<le> size_list (size_prod (\<lambda>_. 0) size) kvs"
    by (induction kvs) auto
  from "2.prems" obtain l' n' where s: "DataTree_sweep xs = Inr (l', n')"
    and n: "next_level = map snd kvs @ n'"
    by (auto split: sum.splits)
  from "2.IH" [OF s] a show ?case by (simp add: n size_list_append)
qed auto

function DataTree_getPaths_loop :: "pyval list \<Rightarrow> key list list result" where
  "DataTree_getPaths_loop this_level =
     (case DataTree_sweep this_level of
        Inl e \<Rightarrow> Inl e
      | Inr (l, next_level) \<Rightarrow>
          if l = [] then Inr []
          else
            (case DataTree_getPaths_loop next_level of
               Inl e \<Rightarrow> Inl e
             | Inr labels \<Rightarrow> Inr (unique l # labels)))"
  by pat_completeness auto
termination
  by (relation "measure (size_list size)") (auto dest: DataTree_sweep_size)

declare DataTree_getPaths_loop.simps [simp del]

definition DataTree_getPaths :: "pyval \<Rightarrow> key list list result" where
  "DataTree_getPaths self_data = DataTree_getPaths_loop [self_data]"

text \<open>
  \<^verbatim>\<open>DataTree.swop\<close>: every path is the product of a prefix, the two keys, an infix and a
  suffix over all the deeper levels; it is read with \<^verbatim>\<open>DataTree.getLeaf\<close> and written with
  \<^verbatim>\<open>DataTree.setLeaf\<close>. The loop over \<^verbatim>\<open>(prefix, infx, suffix)\<close>, then the loop over
  \<^verbatim>\<open>(p1, p2)\<close>; the state is the \<^verbatim>\<open>_data\<close> of \<^verbatim>\<open>newtree\<close>.
\<close>

fun DataTree_swop_inner ::
  "pyval \<Rightarrow> key \<Rightarrow> key \<Rightarrow> (key option list \<times> key option list \<times> key option list) list \<Rightarrow> pyval \<Rightarrow>
     pyval result" where
  "DataTree_swop_inner self_data p1 p2 [] newtree = Inr newtree"
| "DataTree_swop_inner self_data p1 p2 ((prefix, infx, suffix) # rest) newtree =
     (let oldpath = swop_f (prefix @ [Some p1] @ infx @ [Some p2] @ suffix);
          newpath = swop_f (prefix @ [Some p2] @ infx @ [Some p1] @ suffix)
      in case DataTree_getLeaf self_data oldpath of
           Inl e \<Rightarrow> Inl e
         | Inr data \<Rightarrow>
             if data = PNone then DataTree_swop_inner self_data p1 p2 rest newtree
             else
               (case DataTree_setLeaf newtree newpath data of
                  Inl e \<Rightarrow> Inl e
                | Inr newtree' \<Rightarrow> DataTree_swop_inner self_data p1 p2 rest newtree'))"

fun DataTree_swop_outer ::
  "pyval \<Rightarrow> (key \<times> key) list \<Rightarrow> (key option list \<times> key option list \<times> key option list) list \<Rightarrow>
     pyval \<Rightarrow> pyval result" where
  "DataTree_swop_outer self_data [] pis newtree = Inr newtree"
| "DataTree_swop_outer self_data ((p1, p2) # rest) pis newtree =
     (case DataTree_swop_inner self_data p1 p2 pis newtree of
        Inl e \<Rightarrow> Inl e
      | Inr newtree' \<Rightarrow> DataTree_swop_outer self_data rest pis newtree')"

text \<open>
  \<^verbatim>\<open>DataTree.swop\<close> returns nothing and replaces the tree's \<^verbatim>\<open>_data\<close>, which is returned
  here; with equal levels it is left as it is.
\<close>

definition DataTree_swop :: "pyval \<Rightarrow> nat \<Rightarrow> nat \<Rightarrow> pyval result" where
  "DataTree_swop self_data level1 level2 =
     (case DataTree_getPaths self_data of
        Inl e \<Rightarrow> Inl e
      | Inr paths \<Rightarrow>
          (let nlevels = length paths in
           if nlevels \<le> level1 then Inl IndexError
           else if nlevels \<le> level2 then Inl IndexError
           else if level1 = level2 then Inr self_data
           else
             (let l1 = (if level1 > level2 then level2 else level1);
                  l2 = (if level1 > level2 then level1 else level2);
                  prefixes = swop_product (take l1 paths);
                  infixes = swop_product (drop (l1 + 1) (take l2 paths));
                  suffixes = swop_product (drop (l2 + 1) paths)
              in DataTree_swop_outer self_data (List.product (paths ! l1) (paths ! l2))
                   (List.product prefixes (List.product infixes suffixes)) (PDict []))))"

section \<open>Assembling a table\<close>

text \<open>\<^verbatim>\<open>str(x)\<close> of an integer.\<close>

function str_nat :: "nat \<Rightarrow> string" where
  "str_nat n =
     (if n < 10 then [''0123456789'' ! n]
      else str_nat (n div 10) @ [''0123456789'' ! (n mod 10)])"
  by pat_completeness auto
termination
  by (relation "measure id") auto

declare str_nat.simps [simp del]

definition str_int :: "int \<Rightarrow> string" where
  "str_int i = (if i < 0 then CHR ''-'' # str_nat (nat (- i)) else str_nat (nat i))"

fun join :: "string \<Rightarrow> string list \<Rightarrow> string" where
  "join sep [] = []"
| "join sep [x] = x"
| "join sep (x # xs) = x @ sep @ join sep xs"

text \<open>
  \<^verbatim>\<open>str(x)\<close>: exact for \<^verbatim>\<open>None\<close>, integers and strings. Inside a sequence a string is
  written in single quotes, without the escapes Python adds; a dictionary and a
  tabular object are written as a fixed tag.
\<close>

fun py_repr :: "pyval \<Rightarrow> string" where
  "py_repr PNone = ''None''"
| "py_repr (PInt i) = str_int i"
| "py_repr (PStr s) = [CHR 0x27] @ s @ [CHR 0x27]"
| "py_repr (PList xs) = ''['' @ join '', '' (map py_repr xs) @ '']''"
| "py_repr (PDict kvs) = ''<dict>''"
| "py_repr (PFrame d c i) = ''<DataFrame>''"

fun py_str :: "pyval \<Rightarrow> string" where
  "py_str (PStr s) = s"
| "py_str v = py_repr v"

text \<open>\<^verbatim>\<open>str(x)\<close> of a header: a key, or the empty string (\<open>None\<close> here); a tuple is
  written in parentheses.\<close>

fun key_str :: "key \<Rightarrow> string" where
  "key_str (KStr s) = s"
| "key_str (KInt i) = str_int i"
| "key_str (KTuple ks) =
     ''('' @ join '', '' (map (\<lambda>k. py_repr (key_val k)) ks) @ (if length ks = 1 then '','' else []) @ '')''"

fun header_str :: "key option \<Rightarrow> string" where
  "header_str None = []"
| "header_str (Some k) = key_str k"

text \<open>
  Modelled from the spec: \<^verbatim>\<open>Utils.quote_rst\<close> is not among the sources; the spec has
  the cells of the matrix as the display strings of the values.
\<close>

definition quote_rst :: "pyval \<Rightarrow> string" where
  "quote_rst text = py_str text"

text \<open>
  Modelled from the spec: \<^verbatim>\<open>Utils.ContainerTypes\<close> is not among the sources; the spec
  has a composite key as a tuple or list, and a multi-valued cell as a sequence.
\<close>

fun key_is_container :: "key \<Rightarrow> bool" where
  "key_is_container (KTuple ks) = True"
| "key_is_container k = False"

fun is_container :: "pyval \<Rightarrow> bool" where
  "is_container (PList xs) = True"
| "is_container v = False"

fun count_levels :: "key list list \<Rightarrow> int list" where
  "count_levels [] = []"
| "count_levels (x # labels) =
     (case x ! 0 of KTuple ks \<Rightarrow> int (length ks) | _ \<Rightarrow> 1) # count_levels labels"

text \<open>Truth of a value, as \<^verbatim>\<open>not work\<close> tests it; a tabular object by \<^verbatim>\<open>work.empty\<close>.\<close>

fun py_truth :: "pyval \<Rightarrow> bool" where
  "py_truth PNone = False"
| "py_truth (PInt i) = (i \<noteq> 0)"
| "py_truth (PStr s) = (s \<noteq> [])"
| "py_truth (PList xs) = (xs \<noteq> [])"
| "py_truth (PDict kvs) = (kvs \<noteq> [])"
| "py_truth (PFrame d c i) = (py_len (PFrame d c i) \<noteq> Inr 0)"

text \<open>\<^verbatim>\<open>row_data[i] = v\<close> on a list of cells.\<close>

definition cell_set :: "pyval list \<Rightarrow> int \<Rightarrow> pyval \<Rightarrow> pyval list result" where
  "cell_set row_data i v =
     (case py_index (length row_data) i of
        None \<Rightarrow> Inl IndexError
      | Some j \<Rightarrow> Inr (row_data[j := v]))"

text \<open>\<^verbatim>\<open>for z, p in enumerate(ps): row_data[z] = p\<close>.\<close>

fun set_parts :: "pyval list \<Rightarrow> nat \<Rightarrow> key list \<Rightarrow> pyval list result" where
  "set_parts row_data z [] = Inr row_data"
| "set_parts row_data z (p # ps) =
     (case cell_set row_data (int z) (key_val p) of
        Inl e \<Rightarrow> Inl e
      | Inr row_data' \<Rightarrow> set_parts row_data' (Suc z) ps)"

text \<open>The check for multi-level rows: the result is \<^verbatim>\<open>(is_container, max_rows)\<close>.\<close>

fun check_rows :: "pyval \<Rightarrow> key list \<Rightarrow> nat option \<Rightarrow> (bool \<times> nat option) result" where
  "check_rows work [] max_rows = Inr (True, max_rows)"
| "check_rows work (column # columns) max_rows =
     (case py_contains work column of
        Inl e \<Rightarrow> Inl e
      | Inr b \<Rightarrow>
          if \<not> b then check_rows work columns max_rows
          else
            (case getitem work column of
               Inl e \<Rightarrow> Inl e
             | Inr c \<Rightarrow>
                 if \<not> is_container c then Inr (False, max_rows)
                 else
                   (case py_len c of
                      Inl e \<Rightarrow> Inl e
                    | Inr n \<Rightarrow>
                        if max_rows = None then check_rows work columns (Some n)
                        else if max_rows \<noteq> Some n then Inl ValueError
                        else check_rows work columns max_rows)))"

text \<open>
  Filling the cells of one row from \<^verbatim>\<open>work\<close>; \<open>z\<close> is the index into a multi-valued
  cell, if any. A \<^verbatim>\<open>KeyError\<close> leaves the cell as it is.
\<close>

fun fill_row ::
  "pyval \<Rightarrow> int \<Rightarrow> nat option \<Rightarrow> nat \<Rightarrow> key list \<Rightarrow> pyval list \<Rightarrow> pyval list result" where
  "fill_row work header_offset z y [] row_data = Inr row_data"
| "fill_row work header_offset z y (column # columns) row_data =
     (case getitem work column of
        Inl KeyError \<Rightarrow> fill_row work header_offset z (Suc y) columns row_data
      | Inl e \<Rightarrow> Inl e
      | Inr c \<Rightarrow>
          (case (case z of None \<Rightarrow> Inr c | Some i \<Rightarrow> getitem c (KInt (int i))) of
             Inl KeyError \<Rightarrow> fill_row work header_offset z (Suc y) columns row_data
           | Inl e \<Rightarrow> Inl e
           | Inr v \<Rightarrow>
               (case cell_set row_data (int y + header_offset) (PStr (quote_rst v)) of
                  Inl e \<Rightarrow> Inl e
                | Inr row_data' \<Rightarrow> fill_row work header_offset z (Suc y) columns row_data')))"

text \<open>
  The loop \<^verbatim>\<open>for z in range(max_rows)\<close> of a multi-level row: the state is the matrix,
  the row headers and the current \<^verbatim>\<open>row_data\<close>.
\<close>

fun sub_rows ::
  "pyval \<Rightarrow> int \<Rightarrow> key list \<Rightarrow> nat \<Rightarrow> nat \<Rightarrow> nat list \<Rightarrow>
   pyval list list \<times> key option list \<times> pyval list \<Rightarrow>
   (pyval list list \<times> key option list \<times> pyval list) result" where
  "sub_rows work header_offset columns ncols max_rows [] st = Inr st"
| "sub_rows work header_offset columns ncols max_rows (z # zs) (matrix, row_headers, row_data) =
     (case fill_row work header_offset (Some z) 0 columns row_data of
        Inl e \<Rightarrow> Inl e
      | Inr row_data' \<Rightarrow>
          if int z < int max_rows - 1 then
            sub_rows work header_offset columns ncols max_rows zs
              (matrix @ [row_data'], row_headers @ [None], replicate ncols (PStr []))
          else sub_rows work header_offset columns ncols max_rows zs (matrix, row_headers, row_data'))"

text \<open>
  The loop over \<^verbatim>\<open>paths\<close> for one main row \<^verbatim>\<open>row\<close>: the state is the matrix, the row
  headers and \<^verbatim>\<open>first\<close>. The \<^verbatim>\<open>break\<close> on \<^verbatim>\<open>head\<close> leaves this loop only.
\<close>

fun table_paths ::
  "pyval \<Rightarrow> key list list \<Rightarrow> int \<Rightarrow> nat \<Rightarrow> nat option \<Rightarrow> key \<Rightarrow> key list list \<Rightarrow>
   pyval list list \<times> key option list \<times> bool \<Rightarrow>
   (pyval list list \<times> key option list \<times> bool) result" where
  "table_paths data labels header_offset ncols head row [] st = Inr st"
| "table_paths data labels header_offset ncols head row (path # paths) (matrix, row_headers, first) =
     (case getLeaf data (row # path) of
        Inl e \<Rightarrow> Inl e
      | Inr work \<Rightarrow>
          if \<not> py_truth work then
            table_paths data labels header_offset ncols head row paths (matrix, row_headers, first)
          else
            (case
               (if first then
                  (case row of
                     KTuple ks \<Rightarrow>
                       (case ks of
                          [] \<Rightarrow> Inl IndexError
                        | r0 # rs \<Rightarrow>
                            (case set_parts (replicate ncols (PStr [])) 0 rs of
                               Inl e \<Rightarrow> Inl e
                             | Inr rd \<Rightarrow> Inr (row_headers @ [Some r0], rd)))
                   | _ \<Rightarrow> Inr (row_headers @ [Some row], replicate ncols (PStr [])))
                else Inr (row_headers @ [None], replicate ncols (PStr [])))
             of
               Inl e \<Rightarrow> Inl e
             | Inr (row_headers1, row_data0) \<Rightarrow>
                 (case set_parts row_data0 0 path of
                    Inl e \<Rightarrow> Inl e
                  | Inr row_data \<Rightarrow>
                      (case check_rows work (last labels) None of
                         Inl e \<Rightarrow> Inl e
                       | Inr (multi, max_rows) \<Rightarrow>
                           (case
                              (if multi then
                                 (case max_rows of
                                    None \<Rightarrow> Inl TypeError
                                  | Some m \<Rightarrow>
                                      sub_rows work header_offset (last labels) ncols m [0..<m]
                                        (matrix, row_headers1, row_data))
                               else
                                 (case fill_row work header_offset None 0 (last labels) row_data of
                                    Inl e \<Rightarrow> Inl e
                                  | Inr row_data' \<Rightarrow> Inr (matrix, row_headers1, row_data')))
                            of
                              Inl e \<Rightarrow> Inl e
                            | Inr (matrix2, row_headers2, row_data2) \<Rightarrow>
                                (let matrix3 = matrix2 @ [row_data2] in
                                 if (case head of None \<Rightarrow> False | Some h \<Rightarrow> h \<noteq> 0 \<and> length matrix3 \<ge> h)
                                 then Inr (matrix3, row_headers2, False)
                                 else
                                   table_paths data labels header_offset ncols head row paths
                                     (matrix3, row_headers2, False)))))))"

text \<open>The loop over the main rows \<^verbatim>\<open>labels[0]\<close>; \<^verbatim>\<open>first\<close> is set anew for each.\<close>

fun table_rows ::
  "pyval \<Rightarrow> key list list \<Rightarrow> int \<Rightarrow> nat \<Rightarrow> nat option \<Rightarrow> key list list \<Rightarrow> key list \<Rightarrow>
   pyval list list \<times> key option list \<Rightarrow> (pyval list list \<times> key option list) result" where
  "table_rows data labels header_offset ncols head paths [] st = Inr st"
| "table_rows data labels header_offset ncols head paths (row # rows) (matrix, row_headers) =
     (case table_paths data labels header_offset ncols head row paths (matrix, row_headers, True) of
        Inl e \<Rightarrow> Inl e
      | Inr (matrix', row_headers', first) \<Rightarrow>
          table_rows data labels header_offset ncols head paths rows (matrix', row_headers'))"

text \<open>\<^verbatim>\<open>list(zip(*matrix))\<close>: the columns, up to the length of the shortest row.\<close>

definition py_zip :: "'a list list \<Rightarrow> 'a list list" where
  "py_zip rows =
     (if rows = [] then []
      else map (\<lambda>j. map (\<lambda>r. r ! j) rows) [0..<foldr min (map length rows) (length (hd rows))])"

text \<open>
  \<^verbatim>\<open>tree2table\<close> returns \<^verbatim>\<open>(matrix, row_headers, col_headers)\<close>. The cells of the matrix
  are the empty string, a part of a key, or the display string of a value; a header is
  a key or empty, and is converted by \<^verbatim>\<open>str\<close>.
\<close>

definition tree2table ::
  "pyval \<Rightarrow> bool \<Rightarrow> nat option \<Rightarrow> (pyval list list \<times> string list \<times> string list) result" where
  "tree2table data do_transpose head =
     (let labels = getPaths data in
      if length labels < 2 then Inl ValueError
      else
        (let effective_labels = count_levels labels;
             effective_cols = sum_list (butlast effective_labels) - 1;
             col_headers = replicate (nat effective_cols) None @ map Some (last labels);
             ncols = length col_headers;
             paths = product_lists (butlast (tl labels));
             header_offset = effective_cols
         in case table_rows data labels header_offset ncols head paths (labels ! 0) ([], []) of
              Inl e \<Rightarrow> Inl e
            | Inr (matrix, row_headers) \<Rightarrow>
                (if do_transpose
                 then Inr (py_zip matrix, map header_str col_headers, map header_str row_headers)
                 else Inr (matrix, map header_str row_headers, map header_str col_headers))))"

section \<open>The tree as a tabular object\<close>

text \<open>
  The order of \<^verbatim>\<open>sorted\<close> on keys, as Python 2 has it: numbers before strings before
  tuples, strings and tuples lexicographically.
\<close>

fun str_less :: "string \<Rightarrow> string \<Rightarrow> bool" where
  "str_less s [] = False"
| "str_less [] (d # t) = True"
| "str_less (c # s) (d # t) =
     ((of_char c :: nat) < of_char d \<or> ((of_char c :: nat) = of_char d \<and> str_less s t))"

fun key_less :: "key \<Rightarrow> key \<Rightarrow> bool" and keys_less :: "key list \<Rightarrow> key list \<Rightarrow> bool" where
  "key_less (KInt i) (KInt j) = (i < j)"
| "key_less (KInt i) (KStr t) = True"
| "key_less (KInt i) (KTuple ys) = True"
| "key_less (KStr s) (KInt j) = False"
| "key_less (KStr s) (KStr t) = str_less s t"
| "key_less (KStr s) (KTuple ys) = True"
| "key_less (KTuple xs) (KInt j) = False"
| "key_less (KTuple xs) (KStr t) = False"
| "key_less (KTuple xs) (KTuple ys) = keys_less xs ys"
| "keys_less xs [] = False"
| "keys_less [] (y # ys) = True"
| "keys_less (x # xs) (y # ys) = (key_less x y \<or> (x = y \<and> keys_less xs ys))"

fun insert_item :: "key \<times> pyval \<Rightarrow> (key \<times> pyval) list \<Rightarrow> (key \<times> pyval) list" where
  "insert_item x [] = [x]"
| "insert_item x (y # ys) = (if key_less (fst x) (fst y) then x # y # ys else y # insert_item x ys)"

definition sorted_items :: "(key \<times> pyval) list \<Rightarrow> (key \<times> pyval) list" where
  "sorted_items kvs = foldr insert_item kvs []"

definition MATRIX :: "key list" where
  "MATRIX = [KStr ''rows'', KStr ''columns'', KStr ''matrix'']"

definition VENN2 :: "key list" where
  "VENN2 = [KStr ''10'', KStr ''01'', KStr ''11'']"

definition VENN3 :: "key list" where
  "VENN3 = [KStr ''010'', KStr ''001'', KStr ''011'']"

text \<open>\<^verbatim>\<open>len(set(branch.keys()).intersection(NAMES)) == len(NAMES)\<close>.\<close>

definition has_all :: "key list \<Rightarrow> key list \<Rightarrow> bool" where
  "has_all keys names = (length (filter (\<lambda>n. n \<in> set keys) names) = length names)"

text \<open>
  \<^verbatim>\<open>pandas.DataFrame(values, columns=..., index=...)\<close>. pandas is not part of the
  repository: which values, columns and index its constructor refuses, and with which
  error, is the parameter \<open>raises\<close> of the model. The tabular object of a call that is
  not refused is kept as the call.
\<close>

definition pandas_DataFrame ::
  "(pyval \<Rightarrow> pyval \<Rightarrow> pyval \<Rightarrow> error option) \<Rightarrow> pyval \<Rightarrow> pyval \<Rightarrow> pyval \<Rightarrow> pyval result" where
  "pandas_DataFrame raises values columns index =
     (case raises values columns index of
        Some e \<Rightarrow> Inl e
      | None \<Rightarrow> Inr (PFrame values columns index))"

text \<open>
  The special cases of \<^verbatim>\<open>asDataFrame\<close>, on the items of a branch: the tabular object
  that takes the place of a branch with the keys of \<^verbatim>\<open>MATRIX\<close>, or of a branch with
  the keys of \<^verbatim>\<open>VENN2\<close> or \<^verbatim>\<open>VENN3\<close>; \<open>None\<close> for any other branch.
\<close>

definition special_frame ::
  "(pyval \<Rightarrow> pyval \<Rightarrow> pyval \<Rightarrow> error option) \<Rightarrow> (key \<times> pyval) list \<Rightarrow> pyval option result" where
  "special_frame raises kvs =
     (if has_all (map fst kvs) MATRIX then
        (case (map_of kvs (KStr ''matrix''), map_of kvs (KStr ''columns''), map_of kvs (KStr ''rows'')) of
           (Some m, Some c, Some r) \<Rightarrow>
             (case pandas_DataFrame raises m c r of Inl e \<Rightarrow> Inl e | Inr df \<Rightarrow> Inr (Some df))
         | _ \<Rightarrow> Inl KeyError)
      else if has_all (map fst kvs) VENN2 \<or> has_all (map fst kvs) VENN3 then
        (let values = sorted_items kvs
         in case pandas_DataFrame raises (PList (map snd values)) PNone
                   (PList (map (\<lambda>x. key_val (fst x)) values)) of
              Inl e \<Rightarrow> Inl e
            | Inr df \<Rightarrow> Inr (Some df))
      else Inr None)"

text \<open>
  The loop over the branches: a branch with a special case is replaced in the tree by
  its tabular object. The result is the tree and the error that ended the loop, if
  any.
\<close>

fun normalize_branches ::
  "(pyval \<Rightarrow> pyval \<Rightarrow> pyval \<Rightarrow> error option) \<Rightarrow> (key list \<times> pyval) list \<Rightarrow> pyval \<Rightarrow>
     pyval \<times> error option" where
  "normalize_branches raises [] data = (data, None)"
| "normalize_branches raises ((path, branch) # branches) data =
     (case items branch of
        Inl e \<Rightarrow> (data, Some e)
      | Inr kvs \<Rightarrow>
          (case special_frame raises kvs of
             Inl e \<Rightarrow> (data, Some e)
           | Inr None \<Rightarrow> normalize_branches raises branches data
           | Inr (Some df) \<Rightarrow>
               (case setLeaf data path df of
                  Inl e \<Rightarrow> (data, Some e)
                | Inr data' \<Rightarrow> normalize_branches raises branches data')))"

text \<open>
  What \<^verbatim>\<open>asDataFrame\<close> returns is built by pandas; it is kept as the calls that build
  it.
\<close>

datatype table =
    DataFrame pyval
  | DataFrameIndex pyval pyval
  | Existing pyval
  | Transpose table
  | Columns table "key list"
  | Concat "(pyval \<times> table) list"

text \<open>
  Modelled from the spec: \<^verbatim>\<open>Utils.isArray\<close> and \<^verbatim>\<open>Utils.isDataFrame\<close> are not among the
  sources; the spec chooses the merge by the kind of the leaf: a sequence, a tabular
  object, or anything else.
\<close>

fun isArray :: "pyval \<Rightarrow> bool" where
  "isArray (PList xs) = True"
| "isArray v = False"

fun isDataFrame :: "pyval \<Rightarrow> bool" where
  "isDataFrame (PFrame d c i) = True"
| "isDataFrame v = False"

definition path_val :: "key list \<Rightarrow> pyval" where
  "path_val path = key_val (KTuple path)"

text \<open>The last part of \<^verbatim>\<open>asDataFrame\<close>, which reads the tree and builds the result.\<close>

definition merge_leaves :: "pyval \<Rightarrow> table result" where
  "merge_leaves data =
     (let labels = getPaths data in
      case getNodes data (int (length labels) - 1) of
        Inl e \<Rightarrow> Inl e
      | Inr leaves \<Rightarrow>
          (case leaves of
             [] \<Rightarrow> Inl IndexError
           | first # others \<Rightarrow>
               (let leaf = snd first in
                if isArray leaf then
                  (if length labels = 1 then Inr (Concat [(PStr ''all'', DataFrame data)])
                   else
                     (case getNodes data (max 0 (int (length labels) - 2)) of
                        Inl e \<Rightarrow> Inl e
                      | Inr branches \<Rightarrow>
                          Inr (Concat (map (\<lambda>x. (path_val (fst x), DataFrame (snd x))) branches))))
                else if isDataFrame leaf then
                  Inr (Concat (map (\<lambda>x. (if length (fst x) = 1 then key_val (fst x ! 0)
                                            else path_val (fst x), Existing (snd x))) leaves))
                else if length labels = 1 then
                  (case items data of
                     Inl e \<Rightarrow> Inl e
                   | Inr kvs \<Rightarrow>
                       Inr (DataFrameIndex (PList (map snd kvs)) (PList (map (\<lambda>x. key_val (fst x)) kvs))))
                else if length labels = 2 then
                  Inr (Columns (Transpose (DataFrame data)) (last labels))
                else
                  (case getNodes data (max 0 (int (length labels) - 3)) of
                     Inl e \<Rightarrow> Inl e
                   | Inr branches \<Rightarrow>
                       Inr (Concat (map (\<lambda>x. (path_val (fst x), Transpose (DataFrame (snd x)))) branches))))))"

text \<open>\<^verbatim>\<open>min\<close> and \<^verbatim>\<open>max\<close> of a list that is not empty.\<close>

definition py_min :: "nat list \<Rightarrow> nat" where
  "py_min xs = foldr min (tl xs) (hd xs)"

definition py_max :: "nat list \<Rightarrow> nat" where
  "py_max xs = foldr max (tl xs) (hd xs)"

text \<open>
  \<^verbatim>\<open>asDataFrame\<close>: the result is the tree as the call leaves it, and either the error
  raised or what is returned, \<open>None\<close> standing for the \<^verbatim>\<open>None\<close> of an empty tree. The
  error of a tree that is not uniform carries the minimum and the maximum depth its
  message names.
\<close>

definition asDataFrame ::
  "(pyval \<Rightarrow> pyval \<Rightarrow> pyval \<Rightarrow> error option) \<Rightarrow> pyval \<Rightarrow> pyval \<times> table option result" where
  "asDataFrame raises data =
     (if data = PNone then (data, Inr None)
      else
        (case py_len data of
           Inl e \<Rightarrow> (data, Inl e)
         | Inr n \<Rightarrow>
             if n = 0 then (data, Inr None)
             else
               (case getDepths data of
                  Inl e \<Rightarrow> (data, Inl e)
                | Inr levels \<Rightarrow>
                    if levels = [] then (data, Inl ValueError)
                    else if py_min levels \<noteq> py_max levels
                    then (data, Inl (NotImplementedError (py_min levels) (py_max levels)))
                    else
                      (let labels = getPaths data in
                       case getNodes data (int (length labels) - 2) of
                         Inl e \<Rightarrow> (data, Inl e)
                       | Inr branches \<Rightarrow>
                           (case normalize_branches raises branches data of
                              (data', Some e) \<Rightarrow> (data', Inl e)
                            | (data', None) \<Rightarrow>
                                (case merge_leaves data' of
                                   Inl e \<Rightarrow> (data', Inl e)
                                 | Inr df \<Rightarrow> (data', Inr (Some df))))))))"

section \<open>Trees used in the examples\<close>

text \<open>A constructor of tabular objects that refuses nothing.\<close>

definition no_refusal :: "pyval \<Rightarrow> pyval \<Rightarrow> pyval \<Rightarrow> error option" where
  "no_refusal values columns index = None"

definition two_by_two :: pyval where
  "two_by_two =
     PDict [(KStr ''a'', PDict [(KStr ''x'', PInt 1), (KStr ''y'', PInt 2)]),
            (KStr ''b'', PDict [(KStr ''x'', PInt 3), (KStr ''y'', PInt 4)])]"

definition empty_branch :: pyval where
  "empty_branch = PDict [(KStr ''a'', PDict [(KStr ''b'', PDict [])]), (KStr ''c'', PInt 1)]"

definition empty_payloads :: pyval where
  "empty_payloads =
     PDict [(KStr ''a'', PNone), (KStr ''b'', PStr []), (KStr ''s'', PList []), (KStr ''c'', PInt 1)]"

definition leaf_a :: pyval where
  "leaf_a = PDict [(KStr ''a'', PInt 5)]"

definition ragged :: pyval where
  "ragged = PDict [(KStr ''a'', PDict [(KStr ''x'', PInt 1)]), (KStr ''b'', PInt 5)]"

definition uneven :: pyval where
  "uneven =
     PDict [(KStr ''a'', PDict [(KStr ''x'', PInt 1)]),
            (KStr ''b'', PDict [(KStr ''x'', PDict [(KStr ''p'', PInt 2)])])]"

definition two_branches :: pyval where
  "two_branches =
     PDict [(KStr ''a'', PDict [(KStr ''x'', PInt 1)]), (KStr ''b'', PDict [(KStr ''x'', PInt 2)])]"

definition nested_grid :: pyval where
  "nested_grid =
     PDict [(KStr ''t'', PDict [(KStr ''rows'', PDict [(KStr ''k'', PInt 1)]),
                                (KStr ''columns'', PDict [(KStr ''k'', PInt 2)]),
                                (KStr ''matrix'', PDict [(KStr ''k'', PInt 3)])])]"

definition grid_tree :: pyval where
  "grid_tree =
     PDict [(KStr ''t'', PDict [(KStr ''rows'', PList [PStr ''r1'', PStr ''r2'']),
                                (KStr ''columns'', PList [PStr ''c1'']),
                                (KStr ''matrix'', PList [PList [PInt 1], PList [PInt 2]])]),
            (KStr ''u'', PDict [(KStr ''x'', PList [PInt 1])])]"

section \<open>Predicates of the statements\<close>

text \<open>
  Every node that \<^verbatim>\<open>path\<close> passes through, as far as it exists, is a dictionary: the
  walk of \<^verbatim>\<open>setLeaf\<close> then meets a dictionary or a missing key at every step.
\<close>

fun containers_along :: "pyval \<Rightarrow> key list \<Rightarrow> bool" where
  "containers_along work [] = True"
| "containers_along (PDict kvs) (x # path) =
     (case map_of kvs x of None \<Rightarrow> True | Some w \<Rightarrow> containers_along w path)"
| "containers_along work (x # path) = False"

text \<open>
  A node has \<^verbatim>\<open>label\<close> as its only key: \<^verbatim>\<open>len(leaves) > 1 or label not in leaves\<close> is
  false of it.
\<close>

definition sole_key :: "pyval \<Rightarrow> key \<Rightarrow> bool" where
  "sole_key leaves label =
     (case py_len leaves of
        Inl e \<Rightarrow> False
      | Inr n \<Rightarrow> n \<le> 1 \<and> py_contains leaves label = Inr True)"

text \<open>The levels that the first loop of \<^verbatim>\<open>prune\<close> appends to \<^verbatim>\<open>levels_to_prune\<close>.\<close>

definition prunable :: "pyval \<Rightarrow> key list list \<Rightarrow> key list \<Rightarrow> nat \<Rightarrow> bool" where
  "prunable data data_paths ignore level \<longleftrightarrow>
     length (data_paths ! level) = 1 \<and> data_paths ! level ! 0 \<notin> set ignore \<and>
     prune_keep data (data_paths ! level ! 0) (getPrefixes data level) = Inr False"

text \<open>
  A plain tree: nested dictionaries, none of them empty, whose leaves are \<^verbatim>\<open>None\<close>,
  integers, strings or sequences.
\<close>

fun plain :: "pyval \<Rightarrow> bool" where
  "plain (PDict kvs) = (kvs \<noteq> [] \<and> list_all (\<lambda>x. plain (snd x)) kvs)"
| "plain (PFrame d c i) = False"
| "plain v = True"

text \<open>The depths of the leaves below a value that stands at depth \<open>n\<close>.\<close>

fun leaf_depths :: "nat \<Rightarrow> pyval \<Rightarrow> nat set" where
  "leaf_depths n (PDict kvs) = (\<Union>x \<in> set kvs. leaf_depths (Suc n) (snd x))"
| "leaf_depths n v = {n}"

text \<open>A dictionary of Python has every key once; so has a well-formed tree.\<close>

fun well_formed :: "pyval \<Rightarrow> bool" where
  "well_formed (PDict kvs) = (distinct (map fst kvs) \<and> list_all (\<lambda>x. well_formed (snd x)) kvs)"
| "well_formed v = True"

text \<open>The node of the tree at a path, walking through dictionaries only.\<close>

fun node_at :: "pyval \<Rightarrow> key list \<Rightarrow> pyval option" where
  "node_at v [] = Some v"
| "node_at (PDict kvs) (k # p) = (case map_of kvs k of None \<Rightarrow> None | Some w \<Rightarrow> node_at w p)"
| "node_at v (k # p) = None"

text \<open>
  Two nodes are the same when both are missing, both are the same payload, or both are
  dictionaries with the same keys in the same order.
\<close>

fun same_node :: "pyval option \<Rightarrow> pyval option \<Rightarrow> bool" where
  "same_node (Some (PDict a)) (Some (PDict b)) = (map fst a = map fst b)"
| "same_node x y = (x = y)"

text \<open>
  What \<^verbatim>\<open>setLeaf\<close> returns when it walks through dictionaries only, as a function of
  the tree.
\<close>

fun put_path :: "pyval \<Rightarrow> key list \<Rightarrow> pyval \<Rightarrow> pyval" where
  "put_path w [] v = v"
| "put_path (PDict kvs) (k # p) v =
     PDict (AList.update k (put_path (case map_of kvs k of None \<Rightarrow> PDict [] | Some w \<Rightarrow> w) p v) kvs)"
| "put_path w (k # p) v = w"

text \<open>
  The nodes at depth \<open>level\<close> that stand below an entry of the queue of
  \<^verbatim>\<open>getNodes\<close>.
\<close>

definition nodes_below :: "key list \<times> int \<times> key \<times> pyval \<Rightarrow> int \<Rightarrow> (key list \<times> pyval) set" where
  "nodes_below e level =
     (case e of (p, l, k, v) \<Rightarrow>
        if l \<le> level
        then {(p @ k # r, w) | r w. int (length r) = level - l \<and> node_at v r = Some w}
        else {})"

text \<open>
  The branches that \<^verbatim>\<open>asDataFrame\<close> tests: the nodes that \<^verbatim>\<open>getNodes\<close> yields at level
  \<^verbatim>\<open>len(labels) - 2\<close>, whose paths have \<^verbatim>\<open>len(labels) - 1\<close> keys. In a tree of uniform
  depth without empty dictionaries they are the dictionaries that hold the leaves.
\<close>

definition branch_at :: "pyval \<Rightarrow> key list \<Rightarrow> pyval \<Rightarrow> bool" where
  "branch_at T p v \<longleftrightarrow>
     p \<noteq> [] \<and> int (length p) = int (length (getPaths T)) - 1 \<and> node_at T p = Some v"

text \<open>
  The encodings of a branch, by its keys: the overlap of two sets has the keys
  \<^verbatim>\<open>10\<close>, \<^verbatim>\<open>01\<close> and \<^verbatim>\<open>11\<close>, the overlap of three sets the keys \<^verbatim>\<open>010\<close>, \<^verbatim>\<open>001\<close> and \<^verbatim>\<open>011\<close>.
\<close>

definition overlap_keys :: "key list \<Rightarrow> bool" where
  "overlap_keys ks \<longleftrightarrow>
     KStr ''10'' \<in> set ks \<and> KStr ''01'' \<in> set ks \<and> KStr ''11'' \<in> set ks \<or>
     KStr ''010'' \<in> set ks \<and> KStr ''001'' \<in> set ks \<and> KStr ''011'' \<in> set ks"

text \<open>
  The tabular object that stands for an encoded branch, as the values, columns and
  index of its constructor call: a grid, which has the keys \<^verbatim>\<open>matrix\<close>, \<^verbatim>\<open>columns\<close> and
  \<^verbatim>\<open>rows\<close>, is its matrix with its columns and its rows for the index; an overlap that
  is not a grid is the values of its items, sorted by key, indexed by the keys. A branch
  with neither encoding has none. This is how the statements read the encodings; the
  theorems compare it with \<^verbatim>\<open>special_frame\<close>, which follows the source.
\<close>

definition frame_call :: "(key \<times> pyval) list \<Rightarrow> (pyval \<times> pyval \<times> pyval) option" where
  "frame_call kvs =
     (case (map_of kvs (KStr ''matrix''), map_of kvs (KStr ''columns''), map_of kvs (KStr ''rows'')) of
        (Some m, Some c, Some r) \<Rightarrow> Some (m, c, r)
      | _ \<Rightarrow>
          if overlap_keys (map fst kvs)
          then Some (PList (map snd (sorted_items kvs)), PNone,
                     PList (map (\<lambda>x. key_val (fst x)) (sorted_items kvs)))
          else None)"

text \<open>
  The invariant of the loop over the branches: \<open>D\<close> holds the paths of the branches
  replaced so far.
\<close>

definition norm_inv ::
  "(pyval \<Rightarrow> pyval \<Rightarrow> pyval \<Rightarrow> error option) \<Rightarrow> pyval \<Rightarrow> nat \<Rightarrow> pyval \<Rightarrow> key list set \<Rightarrow> bool" where
  "norm_inv raises T m data D \<longleftrightarrow>
     well_formed data \<and>
     (\<forall>p \<in> D. length p = m \<and>
        (\<exists>kvs df. node_at T p = Some (PDict kvs) \<and> special_frame raises kvs = Inr (Some df) \<and>
           node_at data p = Some df)) \<and>
     (\<forall>q. (\<forall>p \<in> D. take (length p) q \<noteq> p) \<longrightarrow> same_node (node_at data q) (node_at T q)) \<and>
     (\<forall>q. length q = m \<and> q \<notin> D \<longrightarrow> node_at data q = node_at T q)"

text \<open>
  A payload that \<^verbatim>\<open>swop\<close> copies: not \<^verbatim>\<open>None\<close>, which the test \<^verbatim>\<open>data == None\<close> skips, and
  not a tabular object; a dictionary, when all that it holds is such a payload.
\<close>

fun sound :: "pyval \<Rightarrow> bool" where
  "sound (PDict kvs) = list_all (\<lambda>x. sound (snd x)) kvs"
| "sound PNone = False"
| "sound (PFrame d c i) = False"
| "sound v = True"

text \<open>
  Every node above depth \<open>n\<close> is a dictionary, and what stands at depth \<open>n\<close> is a payload
  that \<^verbatim>\<open>swop\<close> copies: no payload stands above depth \<open>n\<close>.
\<close>

fun payloads_below :: "nat \<Rightarrow> pyval \<Rightarrow> bool" where
  "payloads_below 0 v = sound v"
| "payloads_below (Suc n) (PDict kvs) = list_all (\<lambda>x. payloads_below n (snd x)) kvs"
| "payloads_below (Suc n) v = False"

text \<open>
  The fully qualified bindings of a tree: each payload that is not a dictionary, with the
  path of keys that leads to it, in the order of the dictionaries.
\<close>

fun bindings :: "pyval \<Rightarrow> (key list \<times> pyval) list" where
  "bindings (PDict kvs) =
     concat (map (\<lambda>x. map (\<lambda>b. (fst x # fst b, snd b)) (bindings (snd x))) kvs)"
| "bindings v = [([], v)]"

text \<open>The path with its components at the positions \<open>i\<close> and \<open>j\<close> exchanged.\<close>

definition swap_path :: "nat \<Rightarrow> nat \<Rightarrow> key list \<Rightarrow> key list" where
  "swap_path i j q = q[i := q ! j, j := q ! i]"

text \<open>Every node that a path shorter than \<open>n\<close> reaches is a dictionary.\<close>

definition dicts_above :: "nat \<Rightarrow> pyval \<Rightarrow> bool" where
  "dicts_above n T \<longleftrightarrow> (\<forall>p v. length p < n \<and> node_at T p = Some v \<longrightarrow> is_dict v)"

text \<open>What \<^verbatim>\<open>getLeaf\<close> returns for a node, and the items of a node.\<close>

definition none_to_PNone :: "pyval option \<Rightarrow> pyval" where
  "none_to_PNone x = (case x of None \<Rightarrow> PNone | Some v \<Rightarrow> v)"

definition items_of :: "pyval option \<Rightarrow> (key \<times> pyval) list" where
  "items_of x = (case x of Some (PDict d) \<Rightarrow> d | _ \<Rightarrow> [])"

text \<open>
  The tree \<^verbatim>\<open>t\<close> that \<^verbatim>\<open>swop\<close> builds, at any moment of its loops: its keys are distinct, its
  nodes down to the second level are dictionaries, and each node just below the second
  level is the node of the original tree at the path with the two components exchanged.
\<close>

definition swop_inv :: "pyval \<Rightarrow> nat \<Rightarrow> nat \<Rightarrow> pyval \<Rightarrow> bool" where
  "swop_inv T l1 l2 nt \<longleftrightarrow>
     well_formed nt \<and> is_dict nt \<and> dicts_above (Suc l2) nt \<and>
     (\<forall>q'. length q' = Suc l2 \<longrightarrow>
        node_at nt q' = None \<or> node_at nt q' = node_at T (swap_path l1 l2 q'))"

text \<open>The node of the original tree at the path \<open>q\<close> has been written into \<^verbatim>\<open>t\<close>.\<close>

definition copied :: "pyval \<Rightarrow> nat \<Rightarrow> nat \<Rightarrow> pyval \<Rightarrow> key list \<Rightarrow> bool" where
  "copied T l1 l2 nt q \<longleftrightarrow> node_at nt (swap_path l1 l2 q) = node_at T q"

text \<open>
  The tree that \<^verbatim>\<open>DataTree.swop\<close> builds, at any moment of its loops: as for \<^verbatim>\<open>swop\<close>, with
  the nodes at the full depth \<open>n\<close> of the tree in place of those just below the second
  level.
\<close>

definition deep_inv :: "pyval \<Rightarrow> nat \<Rightarrow> nat \<Rightarrow> nat \<Rightarrow> pyval \<Rightarrow> bool" where
  "deep_inv T l1 l2 n nt \<longleftrightarrow>
     well_formed nt \<and> is_dict nt \<and> dicts_above n nt \<and>
     (\<forall>q'. length q' = n \<longrightarrow>
        node_at nt q' = None \<or> node_at nt q' = node_at T (swap_path l1 l2 q'))"

text \<open>The keys and the values that one sweep of \<^verbatim>\<open>getPaths\<close> collects from dictionaries.\<close>

definition level_keys :: "pyval list \<Rightarrow> key list" where
  "level_keys xs = concat (map (\<lambda>x. case x of PDict kvs \<Rightarrow> map fst kvs | _ \<Rightarrow> []) xs)"

definition level_values :: "pyval list \<Rightarrow> pyval list" where
  "level_values xs = concat (map (\<lambda>x. case x of PDict kvs \<Rightarrow> map snd kvs | _ \<Rightarrow> []) xs)"

text \<open>
  The level \<open>level\<close>, whose one key is \<open>label\<close>, has been removed from the tree \<open>T\<close>, which
  gives \<open>T'\<close>: every node of that level held the one key \<open>label\<close> and has been replaced
  by what stood under it, and every node above has kept its keys.
\<close>

definition collapsed :: "nat \<Rightarrow> key \<Rightarrow> pyval \<Rightarrow> pyval \<Rightarrow> bool" where
  "collapsed level label T T' \<longleftrightarrow>
     (\<forall>q. length q = level \<longrightarrow>
        node_at T q = None \<and> node_at T' q = None \<or>
        (\<exists>d. node_at T q = Some (PDict [(label, d)]) \<and> node_at T' q = Some d)) \<and>
     (\<forall>q. length q < level \<longrightarrow> same_node (node_at T' q) (node_at T q))"

text \<open>The levels of a list have been removed one after the other, in the order of the list.\<close>

fun collapsed_levels :: "(nat \<times> key) list \<Rightarrow> pyval \<Rightarrow> pyval \<Rightarrow> bool" where
  "collapsed_levels [] T T' \<longleftrightarrow> T' = T"
| "collapsed_levels ((level, label) # rest) T T' \<longleftrightarrow>
     (\<exists>T1. collapsed level label T T1 \<and> collapsed_levels rest T1 T')"

text \<open>
  The invariant of the loop of \<^verbatim>\<open>removeLevel\<close> over the prefixes: \<open>D\<close> holds the prefixes
  whose node has been replaced so far.
\<close>

definition level_inv :: "nat \<Rightarrow> key \<Rightarrow> pyval \<Rightarrow> pyval \<Rightarrow> key list set \<Rightarrow> bool" where
  "level_inv level label T work D \<longleftrightarrow>
     well_formed work \<and> dicts_above level work \<and>
     (\<forall>q. length q = level \<longrightarrow>
        (if q \<in> D then (\<exists>d. node_at T q = Some (PDict [(label, d)]) \<and> node_at work q = Some d)
         else node_at work q = node_at T q)) \<and>
     (\<forall>q. length q < level \<longrightarrow> same_node (node_at work q) (node_at T q))"

section \<open>Properties\<close>

text \<open>
  C3 (the example of the claim): on \<^verbatim>\<open>{"a": {"b": {}}, "c": 1}\<close> the empty branch
  \<^verbatim>\<open>a/b\<close> goes, and \<^verbatim>\<open>a\<close> with it.
\<close>

lemma removeEmptyLeaves_empty_branch:
  "removeEmptyLeaves empty_branch = (PDict [(KStr ''c'', PInt 1)], True)"
  unfolding empty_branch_def by simp

text \<open>
  C3: \<^verbatim>\<open>removeEmptyLeaves\<close> is to treat a payload that is \<^verbatim>\<open>None\<close>, an empty string or
  an empty sequence as empty and delete it. The test of the source,
  \<^verbatim>\<open>work is not None or work != ""\<close>, holds for every value: on
  \<^verbatim>\<open>{"a": None, "b": "", "s": [], "c": 1}\<close> nothing is deleted.
\<close>

theorem removeEmptyLeaves_keeps_empty_payloads:
  "removeEmptyLeaves empty_payloads = (empty_payloads, True)"
  unfolding empty_payloads_def by simp

text \<open>
  C4: a lookup is never to raise. \<^verbatim>\<open>DataTree.getLeaf\<close> catches the \<^verbatim>\<open>KeyError\<close> only: on
  \<^verbatim>\<open>{"a": 5}\<close> the path \<^verbatim>\<open>("a", "b")\<close>, which descends below the payload \<^verbatim>\<open>5\<close>,
  raises \<^verbatim>\<open>TypeError\<close>, where the module's \<^verbatim>\<open>getLeaf\<close> returns \<^verbatim>\<open>None\<close>.
\<close>

theorem DataTree_getLeaf_below_leaf:
  "DataTree_getLeaf leaf_a [KStr ''a'', KStr ''b''] = Inl TypeError \<and>
   getLeaf leaf_a [KStr ''a'', KStr ''b''] = Inr PNone"
  unfolding leaf_a_def by simp

text \<open>
  C6: \<^verbatim>\<open>tree2table\<close> on \<^verbatim>\<open>{"a": {"x": 1, "y": 2}, "b": {"x": 3, "y": 4}}\<close> returns the
  matrix \<^verbatim>\<open>[["1","2"],["3","4"]]\<close> with row headers \<^verbatim>\<open>["a","b"]\<close> and column headers
  \<^verbatim>\<open>["x","y"]\<close>; with \<^verbatim>\<open>transpose=True\<close> it returns \<^verbatim>\<open>[["1","3"],["2","4"]]\<close> with row
  headers \<^verbatim>\<open>["x","y"]\<close> and column headers \<^verbatim>\<open>["a","b"]\<close>.
\<close>

theorem tree2table_two_by_two:
  "tree2table two_by_two False None =
     Inr ([[PStr ''1'', PStr ''2''], [PStr ''3'', PStr ''4'']], [''a'', ''b''], [''x'', ''y'']) \<and>
   tree2table two_by_two True None =
     Inr ([[PStr ''1'', PStr ''3''], [PStr ''2'', PStr ''4'']], [''x'', ''y''], [''a'', ''b''])"
  unfolding two_by_two_def by code_simp

text \<open>
  C7: with \<^verbatim>\<open>head=N\<close> the matrix is to hold the first \<^verbatim>\<open>N\<close> rows only. The \<^verbatim>\<open>break\<close> on
  \<^verbatim>\<open>head\<close> leaves the loop over the sub-rows of one main row, not the loop over the
  main rows: with \<^verbatim>\<open>head=1\<close> the tree of C6 still gives both rows.
\<close>

theorem tree2table_head_one:
  "tree2table two_by_two False (Some 1) =
     Inr ([[PStr ''1'', PStr ''2''], [PStr ''3'', PStr ''4'']], [''a'', ''b''], [''x'', ''y''])"
  unfolding two_by_two_def by code_simp

subsection \<open>Setting and getting a path\<close>

lemma setitem_getitem: "setitem work k v = Inr work' \<Longrightarrow> getitem work' k = Inr v"
  by (induction work k v rule: setitem.induct)
     (auto simp: update_conv' py_index_def Let_def split: option.splits if_splits)

lemma setLeaf_getLeaf:
  "setLeaf work path data = Inr work' \<Longrightarrow> DataTree_getLeaf work' path = Inr data"
proof (induction work path data arbitrary: work' rule: setLeaf.induct)
  case (1 work data)
  then show ?case by simp
next
  case (2 work k data)
  then show ?case by (simp add: setitem_getitem)
next
  case (3 work x y path data)
  show ?case
  proof (cases "getitem work x")
    case (Inr w)
    with 3(3) obtain w' where w': "setLeaf w (y # path) data = Inr w'"
      and s: "setitem work x w' = Inr work'"
      by (auto split: sum.splits)
    from "3.IH"(2) [OF Inr w'] have "DataTree_getLeaf w' (y # path) = Inr data" .
    with setitem_getitem [OF s] show ?thesis by simp
  next
    case (Inl e)
    with 3(3) have e: "e = KeyError" by (auto split: sum.splits error.splits)
    with Inl 3(3) obtain w' where w': "setLeaf (PDict []) (y # path) data = Inr w'"
      and s: "setitem work x w' = Inr work'"
      by (auto split: sum.splits)
    from "3.IH"(1) [OF Inl e w'] have "DataTree_getLeaf w' (y # path) = Inr data" .
    with setitem_getitem [OF s] show ?thesis by simp
  qed
qed

lemma setLeaf_total:
  "path \<noteq> [] \<Longrightarrow> containers_along work path \<Longrightarrow>
   \<exists>work'. setLeaf work path data = Inr work'"
proof (induction work path data rule: setLeaf.induct)
  case (1 work data)
  then show ?case by simp
next
  case (2 work k data)
  then show ?case by (cases work) auto
next
  case (3 work x y path data)
  then obtain kvs where w: "work = PDict kvs" by (cases work) auto
  show ?case
  proof (cases "map_of kvs x")
    case None
    have "containers_along (PDict []) (y # path)" by simp
    with "3.IH"(1) [of KeyError] None w
    obtain w' where "setLeaf (PDict []) (y # path) data = Inr w'" by auto
    with None w show ?thesis by simp
  next
    case (Some v)
    with "3.prems" w have c: "containers_along v (y # path)" by simp
    with "3.IH"(2) [of v] Some w obtain w' where "setLeaf v (y # path) data = Inr w'" by auto
    with Some w show ?thesis by simp
  qed
qed

text \<open>
  C5 as stated, for every tree, path and value, fails: on \<^verbatim>\<open>{"a": 5}\<close> the call
  \<^verbatim>\<open>setLeaf(("a", "b"), 1)\<close> raises \<^verbatim>\<open>TypeError\<close>, since the payload \<^verbatim>\<open>5\<close> stands where a
  container is needed.
\<close>

theorem DataTree_setLeaf_through_leaf:
  "DataTree_setLeaf leaf_a [KStr ''a'', KStr ''b''] (PInt 1) = Inl TypeError"
  unfolding leaf_a_def by (simp add: DataTree_setLeaf_def)

text \<open>
  C5, amended: whenever \<^verbatim>\<open>setLeaf(path, value)\<close> returns, \<^verbatim>\<open>getLeaf(path)\<close> returns the
  value; it returns, creating the missing containers, whenever every node the path
  passes through is a dictionary as far as it exists. On the empty tree
  \<^verbatim>\<open>setLeaf(("a","b"), 5)\<close> returns, after which \<^verbatim>\<open>getLeaf(("a","b"))\<close> is \<^verbatim>\<open>5\<close> and
  \<^verbatim>\<open>getLeaf(("a","x"))\<close> is \<^verbatim>\<open>None\<close>. \<^verbatim>\<open>getLeaf(())\<close> is the whole root, and
  \<^verbatim>\<open>setLeaf((), value)\<close> makes the value the root.
\<close>

theorem DataTree_set_get:
  "(DataTree_setLeaf T path v = Inr T' \<longrightarrow> DataTree_getLeaf T' path = Inr v) \<and>
   (containers_along T path \<longrightarrow> (\<exists>T1. DataTree_setLeaf T path v = Inr T1)) \<and>
   (\<exists>T1. DataTree_setLeaf (PDict []) [KStr ''a'', KStr ''b''] (PInt 5) = Inr T1 \<and>
      DataTree_getLeaf T1 [KStr ''a'', KStr ''b''] = Inr (PInt 5) \<and>
      DataTree_getLeaf T1 [KStr ''a'', KStr ''x''] = Inr PNone) \<and>
   DataTree_getLeaf T [] = Inr T \<and>
   DataTree_setLeaf T [] v = Inr v"
proof (intro conjI impI)
  assume "DataTree_setLeaf T path v = Inr T'"
  then show "DataTree_getLeaf T' path = Inr v"
    by (cases path) (auto simp: DataTree_setLeaf_def dest: setLeaf_getLeaf)
next
  assume "containers_along T path"
  then show "\<exists>T1. DataTree_setLeaf T path v = Inr T1"
    by (cases "path = []") (auto simp: DataTree_setLeaf_def dest: setLeaf_total)
next
  show "\<exists>T1. DataTree_setLeaf (PDict []) [KStr ''a'', KStr ''b''] (PInt 5) = Inr T1 \<and>
      DataTree_getLeaf T1 [KStr ''a'', KStr ''b''] = Inr (PInt 5) \<and>
      DataTree_getLeaf T1 [KStr ''a'', KStr ''x''] = Inr PNone"
    by (simp add: DataTree_setLeaf_def)
qed (simp_all add: DataTree_setLeaf_def)

theorem DataTree_set_get_witness:
  "\<exists>T1. DataTree_setLeaf two_by_two [KStr ''c'', KStr ''z''] (PInt 7) = Inr T1 \<and>
     DataTree_getLeaf T1 [KStr ''c'', KStr ''z''] = Inr (PInt 7)"
proof -
  have "containers_along two_by_two [KStr ''c'', KStr ''z'']"
    by (simp add: two_by_two_def)
  with DataTree_set_get [of two_by_two "[KStr ''c'', KStr ''z'']" "PInt 7"]
  obtain T1 where s: "DataTree_setLeaf two_by_two [KStr ''c'', KStr ''z''] (PInt 7) = Inr T1"
    by blast
  with DataTree_set_get [of two_by_two "[KStr ''c'', KStr ''z'']" "PInt 7" T1]
  show ?thesis by blast
qed

subsection \<open>The guard of the tabular object\<close>

lemma foldr_min_Min: "foldr min xs (a::nat) = Min (set (a # xs))"
  by (induction xs) (simp_all add: insert_commute)

lemma foldr_max_Max: "foldr max xs (a::nat) = Max (set (a # xs))"
  by (induction xs) (simp_all add: insert_commute)

lemma py_min_Min: "xs \<noteq> [] \<Longrightarrow> py_min xs = Min (set xs)"
  by (cases xs) (simp_all add: py_min_def foldr_min_Min)

lemma py_max_Max: "xs \<noteq> [] \<Longrightarrow> py_max xs = Max (set xs)"
  by (cases xs) (simp_all add: py_max_def foldr_max_Max)

text \<open>
  C8: \<^verbatim>\<open>asDataFrame\<close> returns \<^verbatim>\<open>None\<close> on \<^verbatim>\<open>None\<close> and on the empty tree, without
  raising and without changing the tree; and on a tree whose leaves, as \<^verbatim>\<open>getDepths\<close>
  lists them, do not all have one depth, it raises the error of a tree that is not
  uniform, with the minimum and the maximum depth.
\<close>

theorem asDataFrame_no_data_or_depth_error:
  "asDataFrame raises PNone = (PNone, Inr None) \<and>
   asDataFrame raises (PDict []) = (PDict [], Inr None) \<and>
   (kvs \<noteq> [] \<and> getDepths (PDict kvs) = Inr levels \<and> levels \<noteq> [] \<and>
    Min (set levels) \<noteq> Max (set levels) \<longrightarrow>
      asDataFrame raises (PDict kvs) =
        (PDict kvs, Inl (NotImplementedError (Min (set levels)) (Max (set levels)))))"
  by (simp add: asDataFrame_def py_min_Min py_max_Max)

lemma getDepths_ragged: "getDepths ragged = Inr [0, 1]"
  unfolding ragged_def by (simp add: getDepths_def)

theorem asDataFrame_depth_error_witness:
  "asDataFrame no_refusal ragged = (ragged, Inl (NotImplementedError 0 1))"
  using asDataFrame_no_data_or_depth_error
    [where kvs = "[(KStr ''a'', PDict [(KStr ''x'', PInt 1)]), (KStr ''b'', PInt 5)]"
       and levels = "[0, 1]" and raises = no_refusal]
    getDepths_ragged
  by (simp add: ragged_def)

subsection \<open>The number of levels of a uniform tree\<close>

lemma getDepths_loop_set:
  "set (getDepths_loop stack levels) = set levels \<union> (\<Union>x \<in> set stack. leaf_depths (fst x) (snd x))"
proof (induction stack levels rule: getDepths_loop.induct)
  case (1 levels)
  then show ?case by simp
next
  case (2 level v stack levels)
  show ?case
  proof (cases v)
    case (PDict kvs)
    with 2(5) [OF PDict] show ?thesis by (auto simp: image_iff)
  qed (use 2 in auto)
qed

lemma leaf_depths_ge: "m \<in> leaf_depths n v \<Longrightarrow> n \<le> m"
  by (induction n v arbitrary: m rule: leaf_depths.induct) (auto, fastforce)

lemma leaf_depths_nonempty: "plain v \<Longrightarrow> leaf_depths n v \<noteq> {}"
proof (induction n v rule: leaf_depths.induct)
  case (1 n kvs)
  then obtain x where x: "x \<in> set kvs" by (cases kvs) auto
  with 1 have "leaf_depths (Suc n) (snd x) \<noteq> {}" by (auto simp: list_all_iff)
  with x show ?case by auto
qed auto

lemma sweep_dicts:
  "list_all is_dict xs \<Longrightarrow>
   sweep xs = (concat (map (\<lambda>x. case x of PDict kvs \<Rightarrow> map fst kvs | _ \<Rightarrow> []) xs),
               concat (map (\<lambda>x. case x of PDict kvs \<Rightarrow> map snd kvs | _ \<Rightarrow> []) xs))"
  by (induction xs rule: sweep.induct) auto

lemma sweep_leaves:
  "list_all (\<lambda>x. plain x \<and> \<not> is_dict x) xs \<Longrightarrow> fst (sweep xs) = []"
  by (induction xs rule: sweep.induct) auto

lemma getPaths_loop_uniform:
  "xs \<noteq> [] \<Longrightarrow> list_all (\<lambda>x. plain x \<and> leaf_depths n x = {d}) xs \<Longrightarrow>
   length (getPaths_loop xs) = d - n"
proof (induction "d - n" arbitrary: n xs)
  case 0
  have "list_all (\<lambda>x. plain x \<and> \<not> is_dict x) xs"
    unfolding list_all_iff
  proof
    fix x assume x: "x \<in> set xs"
    with 0 have p: "plain x" and l: "leaf_depths n x = {d}" by (auto simp: list_all_iff)
    have "\<not> is_dict x"
    proof
      assume "is_dict x"
      then obtain kvs where k: "x = PDict kvs" by (cases x) auto
      with p obtain y where y: "y \<in> set kvs" "plain (snd y)" by (cases kvs) (auto simp: list_all_iff)
      from leaf_depths_nonempty [OF y(2), of "Suc n"] obtain m where m: "m \<in> leaf_depths (Suc n) (snd y)" by auto
      with y k have "m \<in> leaf_depths n x" by auto
      with l have "m = d" by simp
      with leaf_depths_ge [OF m] 0 show False by simp
    qed
    with p show "plain x \<and> \<not> is_dict x" by simp
  qed
  then have "fst (sweep xs) = []" by (rule sweep_leaves)
  with 0 show ?case by (simp add: getPaths_loop.simps)
next
  case (Suc k)
  have dicts: "list_all is_dict xs"
    unfolding list_all_iff
  proof
    fix x assume "x \<in> set xs"
    with Suc have l: "leaf_depths n x = {d}" by (auto simp: list_all_iff)
    show "is_dict x"
    proof (rule ccontr)
      assume "\<not> is_dict x"
      then have "leaf_depths n x = {n}" by (cases x) auto
      with l Suc(2) show False by simp
    qed
  qed
  let ?next = "concat (map (\<lambda>x. case x of PDict kvs \<Rightarrow> map snd kvs | _ \<Rightarrow> []) xs)"
  let ?keys = "concat (map (\<lambda>x. case x of PDict kvs \<Rightarrow> map fst kvs | _ \<Rightarrow> []) xs)"
  from sweep_dicts [OF dicts] have sw: "sweep xs = (?keys, ?next)" .
  from Suc(3) obtain x where x: "x \<in> set xs" by (cases xs) auto
  with dicts Suc(4) obtain kvs where kvs: "x = PDict kvs" "kvs \<noteq> []"
    by (cases x) (auto simp: list_all_iff)
  with x have keys_ne: "?keys \<noteq> []" by (auto intro!: bexI [of _ x])
  from kvs x have next_ne: "?next \<noteq> []" by (auto intro!: bexI [of _ x])
  have "list_all (\<lambda>x. plain x \<and> leaf_depths (Suc n) x = {d}) ?next"
    unfolding list_all_iff
  proof
    fix v assume "v \<in> set ?next"
    then obtain y kvs' kv where y: "y \<in> set xs" "y = PDict kvs'" "kv \<in> set kvs'" "v = snd kv"
      by (auto split: pyval.splits)
    from Suc(4) y(1) have py: "plain y" and ly: "leaf_depths n y = {d}"
      unfolding list_all_iff by blast+
    from py y(2) have "\<forall>x \<in> set kvs'. plain (snd x)" by (simp add: list_all_iff)
    with y(3,4) have pv: "plain v" by blast
    have "leaf_depths (Suc n) (snd kv) \<subseteq> (\<Union>x \<in> set kvs'. leaf_depths (Suc n) (snd x))"
      using y(3) by blast
    also have "\<dots> = {d}" using ly y(2) by simp
    finally have "leaf_depths (Suc n) v \<subseteq> {d}" using y(4) by simp
    with leaf_depths_nonempty [OF pv, of "Suc n"] have "leaf_depths (Suc n) v = {d}" by auto
    with pv show "plain v \<and> leaf_depths (Suc n) v = {d}" by simp
  qed
  with Suc(1) [of "Suc n" ?next] Suc(2) next_ne have "length (getPaths_loop ?next) = d - Suc n" by simp
  moreover have "getPaths_loop xs = unique ?keys # getPaths_loop ?next"
    by (subst getPaths_loop.simps) (simp only: sw fst_conv snd_conv keys_ne if_False)
  ultimately show ?case using Suc(2) by simp
qed

text \<open>
  C10: for a plain tree that is not empty and whose leaves, as \<^verbatim>\<open>getDepths\<close> lists them,
  all have depth \<open>d\<close>, \<^verbatim>\<open>getPaths\<close> returns \<open>d + 1\<close> lists of keys.
\<close>

theorem getPaths_length_uniform:
  assumes "plain (PDict kvs)"
    and "getDepths (PDict kvs) = Inr levels"
    and "list_all (\<lambda>l. l = d) levels"
  shows "length (getPaths (PDict kvs)) = d + 1"
proof -
  from assms(1) have ne: "kvs \<noteq> []" and pl: "list_all (\<lambda>x. plain (snd x)) kvs" by simp_all
  from assms(2) have "levels = getDepths_loop (rev (map (\<lambda>x. (0, snd x)) kvs)) []"
    by (simp add: getDepths_def)
  then have lv: "set levels = (\<Union>x \<in> set kvs. leaf_depths 0 (snd x))"
    by (simp add: getDepths_loop_set)
  have "list_all (\<lambda>x. plain x \<and> leaf_depths 0 x = {d}) (map snd kvs)"
    unfolding list_all_iff
  proof
    fix v assume "v \<in> set (map snd kvs)"
    then obtain x where x: "x \<in> set kvs" "v = snd x" by auto
    with pl have pv: "plain v" unfolding list_all_iff by blast
    have "leaf_depths 0 (snd x) \<subseteq> (\<Union>x \<in> set kvs. leaf_depths 0 (snd x))"
      using x(1) by blast
    also have "\<dots> = set levels" using lv by simp
    also have "\<dots> \<subseteq> {d}" using assms(3) unfolding list_all_iff by blast
    finally have "leaf_depths 0 v \<subseteq> {d}" using x(2) by simp
    with leaf_depths_nonempty [OF pv, of 0] have "leaf_depths 0 v = {d}" by auto
    with pv show "plain v \<and> leaf_depths 0 v = {d}" by simp
  qed
  with getPaths_loop_uniform [of "map snd kvs" 0 d] ne
  have "length (getPaths_loop (map snd kvs)) = d" by simp
  with ne show ?thesis by (simp add: getPaths_def getPaths_loop.simps [of "[PDict kvs]"])
qed

theorem getPaths_length_uniform_witness:
  "plain two_by_two \<and> getDepths two_by_two = Inr [1, 1, 1, 1] \<and>
   length (getPaths two_by_two) = 2"
proof -
  have p: "plain two_by_two" by (simp add: two_by_two_def)
  have g: "getDepths two_by_two = Inr [1, 1, 1, 1]" by (simp add: two_by_two_def getDepths_def)
  from getPaths_length_uniform [OF p [unfolded two_by_two_def] g [unfolded two_by_two_def], of 1]
  have "length (getPaths two_by_two) = 2" by (simp add: two_by_two_def)
  with p g show ?thesis by simp
qed

subsection \<open>Writing at a path through dictionaries\<close>

lemma containers_along_empty [simp]: "containers_along (PDict []) p"
  by (cases p) auto

lemma containers_along_dict: "containers_along w (k # p) \<Longrightarrow> is_dict w"
  by (cases w) auto

lemma setLeaf_put_path:
  "p \<noteq> [] \<Longrightarrow> containers_along w p \<Longrightarrow> setLeaf w p v = Inr (put_path w p v)"
proof (induction w p v rule: setLeaf.induct)
  case (1 work data)
  then show ?case by simp
next
  case (2 work k data)
  then show ?case by (cases work) auto
next
  case (3 work x y path data)
  then obtain kvs where w: "work = PDict kvs" by (cases work) auto
  show ?case
  proof (cases "map_of kvs x")
    case None
    have "containers_along (PDict []) (y # path)" by simp
    with "3.IH"(1) [of KeyError] None w show ?thesis by simp
  next
    case (Some u)
    with "3.prems" w have c: "containers_along u (y # path)" by simp
    with "3.IH"(2) [of u] Some w show ?thesis by simp
  qed
qed

lemma node_at_append:
  "node_at w (p @ r) = (case node_at w p of None \<Rightarrow> None | Some u \<Rightarrow> node_at u r)"
  by (induction w p rule: node_at.induct) (auto split: option.splits)

lemma put_path_is_dict: "is_dict w \<Longrightarrow> p \<noteq> [] \<Longrightarrow> is_dict (put_path w p v)"
  by (cases w; cases p) auto

lemma node_at_put_path:
  "containers_along w p \<Longrightarrow> node_at (put_path w p v) (p @ r) = node_at v r"
proof (induction w p v rule: put_path.induct)
  case (2 kvs k p v)
  then show ?case by (auto simp: update_conv' split: option.splits)
qed auto

lemma node_at_put_path_other:
  "containers_along w p \<Longrightarrow> take (length p) q \<noteq> p \<Longrightarrow> take (length q) p \<noteq> q \<Longrightarrow>
   node_at (put_path w p v) q = node_at w q"
proof (induction w p v arbitrary: q rule: put_path.induct)
  case (1 w v)
  then show ?case by simp
next
  case (2 kvs k p v)
  from 2(4) obtain k' q' where q: "q = k' # q'" by (cases q) auto
  show ?case
  proof (cases "k' = k")
    case False
    with q show ?thesis by (simp add: update_conv')
  next
    case True
    let ?w = "case map_of kvs k of None \<Rightarrow> PDict [] | Some w \<Rightarrow> w"
    from 2(2) have c: "containers_along ?w p" by (auto split: option.splits)
    from 2(3,4) q True have nq: "take (length p) q' \<noteq> p" "take (length q') p \<noteq> q'" by auto
    from 2(1) [OF c nq] have "node_at (put_path ?w p v) q' = node_at ?w q'" .
    moreover have "node_at ?w q' = node_at (PDict kvs) q"
    proof (cases "map_of kvs k")
      case None
      with q True nq(2) show ?thesis by (cases q') auto
    next
      case (Some a)
      with q True show ?thesis by simp
    qed
    ultimately show ?thesis using q True by (simp add: update_conv')
  qed
qed auto

lemma same_node_refl [simp]: "same_node x x"
proof (cases x)
  case (Some v)
  then show ?thesis by (cases v) auto
qed simp

lemma same_node_trans: "same_node x y \<Longrightarrow> same_node y z \<Longrightarrow> same_node x z"
  by (cases x; cases y; cases z) (auto elim!: same_node.elims)

lemma update_keys_present: "map_of kvs k = Some u \<Longrightarrow> map fst (AList.update k v kvs) = map fst kvs"
  by (induction kvs) (auto split: if_splits)

lemma node_at_put_path_above:
  "containers_along w p \<Longrightarrow> node_at w p \<noteq> None \<Longrightarrow> take (length q) p = q \<Longrightarrow> q \<noteq> p \<Longrightarrow>
   same_node (node_at (put_path w p v) q) (node_at w q)"
proof (induction w p v arbitrary: q rule: put_path.induct)
  case (1 w v)
  then show ?case by simp
next
  case (2 kvs k p v)
  from 2(3) obtain u where u: "map_of kvs k = Some u" and up: "node_at u p \<noteq> None"
    by (auto split: option.splits)
  show ?case
  proof (cases q)
    case Nil
    with u show ?thesis by (simp add: update_keys_present)
  next
    case (Cons k' q')
    with 2(4) have k: "k' = k" and t: "take (length q') p = q'" by auto
    from 2(5) Cons k have ne: "q' \<noteq> p" by simp
    from 2(2) u have c: "containers_along u p" by simp
    from 2(1) [of q'] u c up t ne have "same_node (node_at (put_path u p v) q') (node_at u q')" by simp
    with Cons k u show ?thesis by (simp add: update_conv')
  qed
qed auto

lemma set_update_subset: "set (AList.update k v al) \<subseteq> insert (k, v) (set al)"
  by (induction al) auto

lemma well_formed_put_path:
  "well_formed w \<Longrightarrow> well_formed v \<Longrightarrow> well_formed (put_path w p v)"
proof (induction w p v rule: put_path.induct)
  case (2 kvs k p v)
  let ?w = "case map_of kvs k of None \<Rightarrow> PDict [] | Some w \<Rightarrow> w"
  have "well_formed ?w"
  proof (cases "map_of kvs k")
    case (Some a)
    then have "(k, a) \<in> set kvs" by (rule map_of_SomeD)
    with 2(2) Some show ?thesis by (auto simp: list_all_iff)
  qed simp
  with 2 have w: "well_formed (put_path ?w p v)" by simp
  have "\<forall>x \<in> set (AList.update k (put_path ?w p v) kvs). well_formed (snd x)"
  proof
    fix x assume "x \<in> set (AList.update k (put_path ?w p v) kvs)"
    with set_update_subset [of k "put_path ?w p v" kvs]
    have "x = (k, put_path ?w p v) \<or> x \<in> set kvs" by auto
    with 2(2) w show "well_formed (snd x)" by (auto simp: list_all_iff)
  qed
  with 2(2) show ?case by (simp add: distinct_update list_all_iff)
qed auto

subsection \<open>The nodes at a depth\<close>

lemma map_of_distinct_iff:
  "distinct (map fst kvs) \<Longrightarrow> map_of kvs k = Some v \<longleftrightarrow> (k, v) \<in> set kvs"
  by (auto dest: map_of_SomeD)

lemma nodes_below_children:
  assumes "distinct (map fst kvs)" and "l < level"
  shows "(\<Union>x \<in> set kvs. nodes_below (p @ [k], l + 1, x) level) =
         nodes_below (p, l, k, PDict kvs) level"
proof (rule set_eqI, rule iffI)
  fix e assume "e \<in> (\<Union>x \<in> set kvs. nodes_below (p @ [k], l + 1, x) level)"
  then obtain x where x: "x \<in> set kvs" and ex: "e \<in> nodes_below (p @ [k], l + 1, fst x, snd x) level"
    by auto
  from ex obtain r w where e: "e = ((p @ [k]) @ fst x # r, w)"
    and r: "int (length r) = level - (l + 1)" and n: "node_at (snd x) r = Some w"
    using assms(2) by (auto simp: nodes_below_def split: if_splits)
  from x assms(1) have "map_of kvs (fst x) = Some (snd x)" by (simp add: map_of_distinct_iff)
  with n have "node_at (PDict kvs) (fst x # r) = Some w" by simp
  moreover from r have "int (length (fst x # r)) = level - l" by simp
  ultimately show "e \<in> nodes_below (p, l, k, PDict kvs) level"
    using e assms(2) unfolding nodes_below_def by (simp del: node_at.simps)
next
  fix e assume "e \<in> nodes_below (p, l, k, PDict kvs) level"
  then obtain r w where e: "e = (p @ k # r, w)" and r: "int (length r) = level - l"
    and n: "node_at (PDict kvs) r = Some w"
    using assms(2) by (auto simp: nodes_below_def)
  from r assms(2) obtain k' r' where r': "r = k' # r'" by (cases r) auto
  with n obtain v where v: "map_of kvs k' = Some v" and n': "node_at v r' = Some w"
    by (auto split: option.splits)
  from v have x: "(k', v) \<in> set kvs" by (rule map_of_SomeD)
  from r r' have "int (length r') = level - (l + 1)" by simp
  with n' e r' assms(2) have "e \<in> nodes_below (p @ [k], l + 1, k', v) level"
    by (simp add: nodes_below_def)
  with x show "e \<in> (\<Union>x \<in> set kvs. nodes_below (p @ [k], l + 1, x) level)" by blast
qed

lemma nodes_below_leaf:
  "\<not> is_dict v \<Longrightarrow> l < level \<Longrightarrow> nodes_below (p, l, k, v) level = {}"
proof -
  assume v: "\<not> is_dict v" and l: "l < level"
  have "node_at v r = None" if "int (length r) = level - l" for r
    using that l v by (cases r; cases v) auto
  then show ?thesis using l by (auto simp: nodes_below_def)
qed

lemma nodes_below_here: "nodes_below (p, level, k, v) level = {(p @ [k], v)}"
  by (auto simp: nodes_below_def)

lemma nodes_below_past: "level < l \<Longrightarrow> nodes_below (p, l, k, v) level = {}"
  by (simp add: nodes_below_def)

lemma getNodes_loop_set:
  "\<forall>e \<in> set stack. well_formed (snd (snd (snd e))) \<Longrightarrow>
   set (getNodes_loop stack level) = (\<Union>e \<in> set stack. nodes_below e level)"
proof (induction stack level rule: getNodes_loop.induct)
  case (1 level)
  then show ?case by simp
next
  case (2 p l k v stack level)
  let ?children = "case v of PDict kvs \<Rightarrow> map (\<lambda>x. (p @ [k], l + 1, x)) kvs | _ \<Rightarrow> []"
  have st: "(case v of PDict kvs \<Rightarrow> stack @ map (\<lambda>x. (p @ [k], l + 1, fst x, snd x)) kvs | _ \<Rightarrow> stack)
      = stack @ ?children"
    by (cases v) auto
  from 2(2) have wv: "well_formed v" by simp
  have wc: "\<forall>e \<in> set (stack @ ?children). well_formed (snd (snd (snd e)))"
    using 2(2) wv by (cases v) (auto simp: list_all_iff)
  from 2(1) wc st
  have IH: "set (getNodes_loop (stack @ ?children) level) = (\<Union>e \<in> set (stack @ ?children). nodes_below e level)"
    by simp
  have here: "set (if l = level then [(p @ [k], v)] else []) \<union> (\<Union>e \<in> set ?children. nodes_below e level)
      = nodes_below (p, l, k, v) level"
  proof -
    consider "l = level" | "l < level" | "level < l" by linarith
    then show ?thesis
    proof cases
      case 1
      have "nodes_below e level = {}" if "e \<in> set ?children" for e
        using that 1 by (cases v) (auto simp: nodes_below_def)
      then have ch: "(\<Union>e \<in> set ?children. nodes_below e level) = {}" by blast
      show ?thesis unfolding ch using 1 by (simp add: nodes_below_here)
    next
      case 2
      show ?thesis
      proof (cases v)
        case (PDict kvs)
        with wv have "distinct (map fst kvs)" by simp
        from nodes_below_children [OF this 2, of p k] PDict 2 show ?thesis by simp
      qed (use 2 in \<open>simp_all add: nodes_below_leaf\<close>)
    next
      case 3
      have "nodes_below e level = {}" if "e \<in> set ?children" for e
        using that 3 by (cases v) (auto simp: nodes_below_def)
      then have ch: "(\<Union>e \<in> set ?children. nodes_below e level) = {}" by blast
      show ?thesis unfolding ch using 3 by (simp add: nodes_below_past)
    qed
  qed
  have "set (getNodes_loop ((p, l, k, v) # stack) level) =
      set (if l = level then [(p @ [k], v)] else []) \<union> set (getNodes_loop (stack @ ?children) level)"
    by (simp add: st)
  also have "\<dots> = (set (if l = level then [(p @ [k], v)] else []) \<union> (\<Union>e \<in> set ?children. nodes_below e level))
      \<union> (\<Union>e \<in> set stack. nodes_below e level)"
    unfolding IH by auto
  also have "\<dots> = (\<Union>e \<in> set ((p, l, k, v) # stack). nodes_below e level)"
    unfolding here by auto
  finally show ?case .
qed

lemma getNodes_set:
  assumes "well_formed (PDict kvs)" and "0 \<le> level"
  shows "set (getNodes_loop (map (\<lambda>x. ([], 0, fst x, snd x)) kvs) level) =
         {(p, w). int (length p) = level + 1 \<and> node_at (PDict kvs) p = Some w}"
proof -
  from assms(1) have d: "distinct (map fst kvs)" by simp
  have "set (getNodes_loop (map (\<lambda>x. ([], 0, x)) kvs) level) =
      (\<Union>e \<in> set (map (\<lambda>x. ([], 0, x)) kvs). nodes_below e level)"
    by (rule getNodes_loop_set) (use assms(1) in \<open>auto simp: list_all_iff\<close>)
  then have "set (getNodes_loop (map (\<lambda>x. ([], 0, fst x, snd x)) kvs) level) =
      (\<Union>x \<in> set kvs. nodes_below ([], 0, x) level)"
    by simp
  also have "\<dots> = {(p, w). int (length p) = level + 1 \<and> node_at (PDict kvs) p = Some w}"
  proof (rule set_eqI, rule iffI)
    fix e assume "e \<in> (\<Union>x \<in> set kvs. nodes_below ([], 0, x) level)"
    then obtain x where x: "x \<in> set kvs" and ex: "e \<in> nodes_below ([], 0, fst x, snd x) level"
      by auto
    from ex obtain r w where e: "e = (fst x # r, w)"
      and r: "int (length r) = level" and n: "node_at (snd x) r = Some w"
      using assms(2) by (auto simp: nodes_below_def)
    from x d have "map_of kvs (fst x) = Some (snd x)" by (simp add: map_of_distinct_iff)
    with n r e show "e \<in> {(p, w). int (length p) = level + 1 \<and> node_at (PDict kvs) p = Some w}"
      by simp
  next
    fix e assume "e \<in> {(p, w). int (length p) = level + 1 \<and> node_at (PDict kvs) p = Some w}"
    then obtain p w where e: "e = (p, w)" and l: "int (length p) = level + 1"
      and n: "node_at (PDict kvs) p = Some w" by auto
    from l assms(2) obtain k r where p: "p = k # r" by (cases p) auto
    with n obtain v where v: "map_of kvs k = Some v" and n': "node_at v r = Some w"
      by (auto split: option.splits)
    from v have "(k, v) \<in> set kvs" by (rule map_of_SomeD)
    moreover from l p n' e assms(2) have "e \<in> nodes_below ([], 0, k, v) level"
      by (simp add: nodes_below_def)
    ultimately show "e \<in> (\<Union>x \<in> set kvs. nodes_below ([], 0, x) level)" by blast
  qed
  finally show ?thesis .
qed

lemma getNodes_negative:
  "level < 0 \<Longrightarrow> \<forall>e \<in> set stack. 0 \<le> fst (snd e) \<Longrightarrow> getNodes_loop stack level = []"
proof (induction stack level rule: getNodes_loop.induct)
  case (2 p l k v stack level)
  let ?stack = "case v of PDict kvs \<Rightarrow> stack @ map (\<lambda>x. (p @ [k], l + 1, fst x, snd x)) kvs | _ \<Rightarrow> stack"
  from 2(3) have "\<forall>e \<in> set ?stack. 0 \<le> fst (snd e)" by (cases v) auto
  with 2(1) [OF 2(2)] have "getNodes_loop ?stack level = []" by simp
  with 2(2,3) show ?case by simp
qed simp

subsection \<open>The special cases of the tabular object\<close>

lemma has_all_iff: "has_all keys names \<longleftrightarrow> set names \<subseteq> set keys"
proof -
  have "length (filter P xs) = length xs \<longleftrightarrow> (\<forall>x \<in> set xs. P x)" for P and xs :: "key list"
    by (metis filter_id_conv length_filter_less less_irrefl_nat)
  then show ?thesis by (auto simp: has_all_def)
qed

lemma map_of_Some_iff: "(\<exists>v. map_of kvs k = Some v) \<longleftrightarrow> k \<in> set (map fst kvs)"
  by (metis map_of_eq_None_iff not_None_eq set_map)

lemma has_all_MATRIX:
  "has_all (map fst kvs) MATRIX \<longleftrightarrow>
     (\<exists>m c r. map_of kvs (KStr ''matrix'') = Some m \<and> map_of kvs (KStr ''columns'') = Some c \<and>
        map_of kvs (KStr ''rows'') = Some r)"
  using map_of_Some_iff [of kvs "KStr ''matrix''"] map_of_Some_iff [of kvs "KStr ''columns''"]
    map_of_Some_iff [of kvs "KStr ''rows''"]
  by (simp add: has_all_iff MATRIX_def) blast

lemma has_all_VENN:
  "has_all ks VENN2 \<or> has_all ks VENN3 \<longleftrightarrow> overlap_keys ks"
  by (auto simp: has_all_iff VENN2_def VENN3_def overlap_keys_def)

lemma special_frame_call:
  "special_frame raises kvs =
     (case frame_call kvs of
        None \<Rightarrow> Inr None
      | Some (d, c, i) \<Rightarrow>
          (case raises d c i of Some e \<Rightarrow> Inl e | None \<Rightarrow> Inr (Some (PFrame d c i))))"
proof (cases "has_all (map fst kvs) MATRIX")
  case True
  then obtain m c r where "map_of kvs (KStr ''matrix'') = Some m"
    "map_of kvs (KStr ''columns'') = Some c" "map_of kvs (KStr ''rows'') = Some r"
    unfolding has_all_MATRIX by blast
  with True show ?thesis
    by (simp add: special_frame_def frame_call_def pandas_DataFrame_def split: option.splits)
next
  case False
  then have "frame_call kvs =
      (if overlap_keys (map fst kvs)
       then Some (PList (map snd (sorted_items kvs)), PNone,
                  PList (map (\<lambda>x. key_val (fst x)) (sorted_items kvs)))
       else None)"
    unfolding has_all_MATRIX by (auto simp: frame_call_def split: option.splits)
  with False show ?thesis
    by (simp add: special_frame_def has_all_VENN pandas_DataFrame_def Let_def split: option.splits)
qed

lemma special_frame_cases:
  "special_frame raises kvs = Inr None \<and> frame_call kvs = None \<or>
   (\<exists>d c i. special_frame raises kvs = Inr (Some (PFrame d c i)) \<and> frame_call kvs = Some (d, c, i) \<and>
      raises d c i = None) \<or>
   (\<exists>d c i e. special_frame raises kvs = Inl e \<and> frame_call kvs = Some (d, c, i) \<and>
      raises d c i = Some e)"
  by (auto simp: special_frame_call split: option.splits)

lemma node_at_containers: "node_at w p = Some x \<Longrightarrow> containers_along w p"
  by (induction w p rule: node_at.induct) (auto split: option.splits)

lemma norm_inv_step:
  assumes inv: "norm_inv raises T m data D" and m: "0 < m" and p: "length p = m"
    and b: "node_at T p = Some (PDict kvs)" and sf: "special_frame raises kvs = Inr (Some df)"
  shows "setLeaf data p df = Inr (put_path data p df) \<and>
    norm_inv raises T m (put_path data p df) (insert p D)"
proof -
  from inv have wf: "well_formed data"
    and D: "\<forall>p \<in> D. length p = m \<and>
        (\<exists>kvs df. node_at T p = Some (PDict kvs) \<and> special_frame raises kvs = Inr (Some df) \<and>
           node_at data p = Some df)"
    and same: "\<forall>q. (\<forall>p \<in> D. take (length p) q \<noteq> p) \<longrightarrow> same_node (node_at data q) (node_at T q)"
    and exact: "\<forall>q. length q = m \<and> q \<notin> D \<longrightarrow> node_at data q = node_at T q"
    by (simp_all add: norm_inv_def)
  have ex: "node_at data p \<noteq> None"
  proof (cases "p \<in> D")
    case True
    with D show ?thesis by auto
  next
    case False
    with exact p b show ?thesis by simp
  qed
  then have ca: "containers_along data p" by (auto intro: node_at_containers)
  from m p have pne: "p \<noteq> []" by auto
  let ?d = "put_path data p df"
  from setLeaf_put_path [OF pne ca] have s: "setLeaf data p df = Inr ?d" .
  from sf special_frame_cases [of raises kvs] have "well_formed df" by auto
  with wf have wf': "well_formed ?d" by (rule well_formed_put_path)
  have here: "node_at ?d p = Some df" using node_at_put_path [OF ca, of df "[]"] by simp
  have other: "node_at ?d q = node_at data q" if "length q = m" "q \<noteq> p" for q
    using that p by (intro node_at_put_path_other [OF ca]) auto
  have D': "\<forall>p' \<in> insert p D. length p' = m \<and>
        (\<exists>kvs df. node_at T p' = Some (PDict kvs) \<and> special_frame raises kvs = Inr (Some df) \<and>
           node_at ?d p' = Some df)"
  proof
    fix p' assume p': "p' \<in> insert p D"
    show "length p' = m \<and>
        (\<exists>kvs df. node_at T p' = Some (PDict kvs) \<and> special_frame raises kvs = Inr (Some df) \<and>
           node_at ?d p' = Some df)"
    proof (cases "p' = p")
      case True
      with p b sf here show ?thesis by blast
    next
      case False
      with p' have "p' \<in> D" by simp
      with D obtain kvs' df' where l: "length p' = m" and "node_at T p' = Some (PDict kvs')"
        "special_frame raises kvs' = Inr (Some df')" "node_at data p' = Some df'" by blast
      with other [OF l False] show ?thesis by auto
    qed
  qed
  have same': "\<forall>q. (\<forall>p' \<in> insert p D. take (length p') q \<noteq> p') \<longrightarrow>
      same_node (node_at ?d q) (node_at T q)"
  proof (intro allI impI)
    fix q assume q: "\<forall>p' \<in> insert p D. take (length p') q \<noteq> p'"
    then have np: "take (length p) q \<noteq> p" and "\<forall>p' \<in> D. take (length p') q \<noteq> p'" by auto
    with same have sT: "same_node (node_at data q) (node_at T q)" by blast
    have "same_node (node_at ?d q) (node_at data q)"
    proof (cases "take (length q) p = q")
      case True
      with np have "q \<noteq> p" by auto
      from node_at_put_path_above [OF ca ex True this] show ?thesis .
    next
      case False
      from node_at_put_path_other [OF ca np False] show ?thesis by simp
    qed
    from this sT show "same_node (node_at ?d q) (node_at T q)" by (rule same_node_trans)
  qed
  have exact': "\<forall>q. length q = m \<and> q \<notin> insert p D \<longrightarrow> node_at ?d q = node_at T q"
    using other exact by auto
  from wf' D' same' exact' have "norm_inv raises T m ?d (insert p D)"
    unfolding norm_inv_def by blast
  with s show ?thesis by simp
qed

lemma normalize_branches_inv:
  assumes "0 < m"
    and "\<forall>x \<in> set B. length (fst x) = m \<and> node_at T (fst x) = Some (snd x)"
    and "norm_inv raises T m data D"
    and "normalize_branches raises B data = (data', err)"
  shows "\<exists>D'. norm_inv raises T m data' D' \<and>
           (err = None \<longrightarrow> (\<forall>x \<in> set B. \<forall>kvs df. snd x = PDict kvs \<and>
               special_frame raises kvs = Inr (Some df) \<longrightarrow> fst x \<in> D')) \<and>
           (D \<subseteq> D') \<and>
           (list_all (\<lambda>x. \<exists>kvs. snd x = PDict kvs \<and> (\<forall>e. special_frame raises kvs \<noteq> Inl e)) B
              \<longrightarrow> err = None)"
  using assms(2-)
proof (induction B arbitrary: data D)
  case Nil
  then show ?case by auto
next
  case (Cons x B)
  obtain p b where x: "x = (p, b)" by (cases x)
  from Cons.prems(1) x have pl: "length p = m" and pb: "node_at T p = Some b"
    and rest: "\<forall>x \<in> set B. length (fst x) = m \<and> node_at T (fst x) = Some (snd x)" by auto
  show ?case
  proof (cases "is_dict b")
    case False
    then have "items b = Inl AttributeError" by (cases b) auto
    with Cons.prems(3) x have "data' = data" "err = Some AttributeError" by auto
    with Cons.prems(2) False x show ?thesis by auto
  next
    case True
    then obtain kvs where b: "b = PDict kvs" by (cases b) auto
    from special_frame_cases [of raises kvs] consider
      (none) "special_frame raises kvs = Inr None"
      | (frame) df where "special_frame raises kvs = Inr (Some df)"
      | (refused) e where "special_frame raises kvs = Inl e"
      by blast
    then show ?thesis
    proof cases
      case none
      with Cons.prems(3) x b have "normalize_branches raises B data = (data', err)" by simp
      from Cons.IH [OF rest Cons.prems(2) this] obtain D' where
        "norm_inv raises T m data' D'"
        "err = None \<longrightarrow> (\<forall>x \<in> set B. \<forall>kvs df. snd x = PDict kvs \<and>
               special_frame raises kvs = Inr (Some df) \<longrightarrow> fst x \<in> D')"
        "D \<subseteq> D'"
        "list_all (\<lambda>x. \<exists>kvs. snd x = PDict kvs \<and> (\<forall>e. special_frame raises kvs \<noteq> Inl e)) B
              \<longrightarrow> err = None" by blast
      with none x b show ?thesis by (intro exI [of _ D']) auto
    next
      case frame
      note sf = frame
      from norm_inv_step [OF Cons.prems(2) assms(1) pl pb [unfolded b] sf]
      have s: "setLeaf data p df = Inr (put_path data p df)"
        and inv': "norm_inv raises T m (put_path data p df) (insert p D)" by simp_all
      from Cons.prems(3) x b sf s
      have "normalize_branches raises B (put_path data p df) = (data', err)" by simp
      from Cons.IH [OF rest inv' this] obtain D' where
        "norm_inv raises T m data' D'"
        "err = None \<longrightarrow> (\<forall>x \<in> set B. \<forall>kvs df. snd x = PDict kvs \<and>
               special_frame raises kvs = Inr (Some df) \<longrightarrow> fst x \<in> D')"
        "insert p D \<subseteq> D'"
        "list_all (\<lambda>x. \<exists>kvs. snd x = PDict kvs \<and> (\<forall>e. special_frame raises kvs \<noteq> Inl e)) B
              \<longrightarrow> err = None" by blast
      with x b show ?thesis by (intro exI [of _ D']) auto
    next
      case refused
      with Cons.prems(3) x b have "data' = data" "err = Some e" by auto
      with Cons.prems(2) refused x b show ?thesis by (intro exI [of _ D]) auto
    qed
  qed
qed

lemma asDataFrame_tree:
  "fst (asDataFrame raises T) = T \<or>
   (\<exists>kvs. T = PDict kvs \<and> kvs \<noteq> [] \<and>
      fst (asDataFrame raises T) =
        fst (normalize_branches raises
               (getNodes_loop (map (\<lambda>x. ([], 0, x)) kvs) (int (length (getPaths T)) - 2)) T))"
proof (cases T)
  case (PDict kvs)
  then show ?thesis
    by (auto simp: asDataFrame_def getNodes_def Let_def split: sum.splits prod.splits option.splits)
qed (auto simp: asDataFrame_def getDepths_def split: sum.splits)

lemma asDataFrame_tree_uniform:
  assumes "kvs \<noteq> []" and "getDepths (PDict kvs) = Inr levels" and "levels \<noteq> []"
    and "list_all (\<lambda>l. l = d) levels"
  shows "asDataFrame raises (PDict kvs) =
     (case normalize_branches raises
             (getNodes_loop (map (\<lambda>x. ([], 0, x)) kvs) (int (length (getPaths (PDict kvs))) - 2))
             (PDict kvs) of
        (data', Some e) \<Rightarrow> (data', Inl e)
      | (data', None) \<Rightarrow>
          (case merge_leaves data' of
             Inl e \<Rightarrow> (data', Inl e)
           | Inr df \<Rightarrow> (data', Inr (Some df))))"
proof -
  from assms(3,4) have "set levels = {d}" by (cases levels) (auto simp: list_all_iff)
  with assms(3) have "py_min levels = py_max levels" by (simp add: py_min_Min py_max_Max)
  with assms(1-3) show ?thesis
    by (simp add: asDataFrame_def getNodes_def Let_def)
qed

text \<open>
  What the loop over the branches leaves, in terms of the nodes of the tree it started
  from.
\<close>

lemma normalize_branches_nodes:
  assumes wf: "well_formed T" and T: "T = PDict kvs0"
    and nb: "normalize_branches raises
               (getNodes_loop (map (\<lambda>x. ([], 0, x)) kvs0) (int (length (getPaths T)) - 2)) T =
             (data', err)"
  shows "(\<forall>q. same_node (node_at data' q) (node_at T q) \<or>
            (\<exists>p kvs d c i. take (length p) q = p \<and> branch_at T p (PDict kvs) \<and>
               frame_call kvs = Some (d, c, i) \<and> node_at data' p = Some (PFrame d c i))) \<and>
      (\<forall>p kvs. branch_at T p (PDict kvs) \<and> frame_call kvs = None \<longrightarrow>
            node_at data' p = Some (PDict kvs)) \<and>
      ((\<forall>p v. branch_at T p v \<longrightarrow> is_dict v) \<and>
         (\<forall>p kvs d c i. branch_at T p (PDict kvs) \<and> frame_call kvs = Some (d, c, i) \<longrightarrow>
            raises d c i = None) \<longrightarrow>
         err = None \<and>
         (\<forall>p kvs d c i. branch_at T p (PDict kvs) \<and> frame_call kvs = Some (d, c, i) \<longrightarrow>
            node_at data' p = Some (PFrame d c i)))"
proof -
  define n where "n = length (getPaths T)"
  let ?B = "getNodes_loop (map (\<lambda>x. ([], 0, x)) kvs0) (int n - 2)"
  from nb have nb: "normalize_branches raises ?B T = (data', err)" by (simp add: n_def)
  show ?thesis
  proof (cases "int n - 2 < 0")
    case True
    then have "?B = []" by (rule getNodes_negative) auto
    with nb have d: "data' = T" "err = None" by simp_all
    have "\<not> branch_at T p v" for p v
      using True by (cases p) (auto simp: branch_at_def n_def)
    with d show ?thesis
      by simp
  next
    case False
    define m where "m = n - 1"
    from False have m: "0 < m" and lm: "int m = (int n - 2) + 1" by (auto simp: m_def)
    from wf T have wfi: "well_formed (PDict kvs0)" by simp
    from False have "0 \<le> int n - 2" by simp
    from getNodes_set [OF wfi this]
    have B: "set ?B = {(p, w). int (length p) = int n - 2 + 1 \<and> node_at T p = Some w}"
      by (simp add: T)
    have Bb: "(p, w) \<in> set ?B \<longleftrightarrow> branch_at T p w" for p w
      unfolding B using m lm by (auto simp: branch_at_def n_def)
    have B1: "\<forall>x \<in> set ?B. length (fst x) = m \<and> node_at T (fst x) = Some (snd x)"
      unfolding B using lm by auto
    have inv0: "norm_inv raises T m T {}" using wf by (simp add: norm_inv_def)
    from normalize_branches_inv [OF m B1 inv0 nb] obtain D' where
      inv: "norm_inv raises T m data' D'" and
      all: "err = None \<longrightarrow> (\<forall>x \<in> set ?B. \<forall>kvs df. snd x = PDict kvs \<and>
               special_frame raises kvs = Inr (Some df) \<longrightarrow> fst x \<in> D')" and
      ok: "list_all (\<lambda>x. \<exists>kvs. snd x = PDict kvs \<and> (\<forall>e. special_frame raises kvs \<noteq> Inl e)) ?B
             \<longrightarrow> err = None" by blast
    from inv have D: "\<forall>p \<in> D'. length p = m \<and>
        (\<exists>kvs df. node_at T p = Some (PDict kvs) \<and> special_frame raises kvs = Inr (Some df) \<and>
           node_at data' p = Some df)"
      and same: "\<forall>q. (\<forall>p \<in> D'. take (length p) q \<noteq> p) \<longrightarrow> same_node (node_at data' q) (node_at T q)"
      and exact: "\<forall>q. length q = m \<and> q \<notin> D' \<longrightarrow> node_at data' q = node_at T q"
      by (simp_all add: norm_inv_def)
    have inD: "branch_at T p (PDict kvs) \<and> (\<exists>d c i. frame_call kvs = Some (d, c, i) \<and>
        node_at data' p = Some (PFrame d c i))"
      if "p \<in> D'" "node_at T p = Some (PDict kvs)" for p kvs
    proof -
      from that D obtain df where l: "length p = m" and k: "special_frame raises kvs = Inr (Some df)"
        "node_at data' p = Some df" by fastforce
      from l m lm that(2) have "branch_at T p (PDict kvs)" by (auto simp: branch_at_def n_def)
      moreover from k special_frame_cases [of raises kvs]
      have "\<exists>d c i. frame_call kvs = Some (d, c, i) \<and> node_at data' p = Some (PFrame d c i)"
        by auto
      ultimately show ?thesis by simp
    qed
    have first: "same_node (node_at data' q) (node_at T q) \<or>
            (\<exists>p kvs d c i. take (length p) q = p \<and> branch_at T p (PDict kvs) \<and>
               frame_call kvs = Some (d, c, i) \<and> node_at data' p = Some (PFrame d c i))" for q
    proof (cases "\<forall>p \<in> D'. take (length p) q \<noteq> p")
      case True
      with same show ?thesis by blast
    next
      case False
      then obtain p where p: "p \<in> D'" "take (length p) q = p" by blast
      with D obtain kvs where "node_at T p = Some (PDict kvs)" by blast
      from inD [OF p(1) this] p(2) show ?thesis by blast
    qed
    have second: "node_at data' p = Some (PDict kvs)"
      if br: "branch_at T p (PDict kvs)" and fc: "frame_call kvs = None" for p kvs
    proof -
      from br have np: "node_at T p = Some (PDict kvs)" and l: "length p = m"
        using m lm by (auto simp: branch_at_def n_def)
      have "p \<notin> D'"
      proof
        assume "p \<in> D'"
        from inD [OF this np] fc show False by simp
      qed
      with exact l np show ?thesis by simp
    qed
    have third: "err = None \<and>
         (\<forall>p kvs d c i. branch_at T p (PDict kvs) \<and> frame_call kvs = Some (d, c, i) \<longrightarrow>
            node_at data' p = Some (PFrame d c i))"
      if dicts: "\<forall>p v. branch_at T p v \<longrightarrow> is_dict v"
        and acc: "\<forall>p kvs d c i. branch_at T p (PDict kvs) \<and> frame_call kvs = Some (d, c, i) \<longrightarrow>
            raises d c i = None"
    proof -
      have "\<exists>kvs. snd x = PDict kvs \<and> (\<forall>e. special_frame raises kvs \<noteq> Inl e)" if x: "x \<in> set ?B" for x
      proof -
        obtain p w where xe: "x = (p, w)" by (cases x)
        with x Bb have br: "branch_at T p w" by simp
        with dicts have "is_dict w" by blast
        then obtain kvs where w: "w = PDict kvs" by (cases w) auto
        from special_frame_cases [of raises kvs] acc br w
        have "\<forall>e. special_frame raises kvs \<noteq> Inl e" by fastforce
        with xe w show ?thesis by simp
      qed
      then have "list_all (\<lambda>x. \<exists>kvs. snd x = PDict kvs \<and> (\<forall>e. special_frame raises kvs \<noteq> Inl e)) ?B"
        unfolding list_all_iff by blast
      with ok have e: "err = None" by simp
      have "node_at data' p = Some (PFrame d c i)"
        if br: "branch_at T p (PDict kvs)" and fc: "frame_call kvs = Some (d, c, i)" for p kvs d c i
      proof -
        from acc br fc have "raises d c i = None" by blast
        with fc have sf: "special_frame raises kvs = Inr (Some (PFrame d c i))"
          by (simp add: special_frame_call)
        from br have "(p, PDict kvs) \<in> set ?B" by (simp add: Bb)
        with e all sf have "p \<in> D'" by fastforce
        moreover from br have "node_at T p = Some (PDict kvs)" by (simp add: branch_at_def)
        ultimately show ?thesis using inD fc by fastforce
      qed
      with e show ?thesis by blast
    qed
    from first second third show ?thesis
      by blast
  qed
qed

text \<open>
  C9 as stated fails, since the branches that are tested are the dictionaries that hold
  the leaves, one level above them. In
  \<^verbatim>\<open>{"t": {"rows": ["r1","r2"], "columns": ["c1"], "matrix": [[1],[2]]}, "u": {"x": [1]}}\<close>
  the node \<^verbatim>\<open>t\<close>, whose values are leaves, is replaced by a tabular object. In
  \<^verbatim>\<open>{"t": {"rows": {"k": 1}, "columns": {"k": 2}, "matrix": {"k": 3}}}\<close> the node \<^verbatim>\<open>t\<close> stands
  two levels above the leaves and has the keys of a grid, and the tree is left as it is.
\<close>

theorem asDataFrame_replaces_leaf_holders:
  "getDepths grid_tree = Inr [1, 1, 1, 1] \<and>
   node_at grid_tree [KStr ''t'', KStr ''rows''] = Some (PList [PStr ''r1'', PStr ''r2'']) \<and>
   node_at (fst (asDataFrame no_refusal grid_tree)) [KStr ''t''] =
     Some (PFrame (PList [PList [PInt 1], PList [PInt 2]]) (PList [PStr ''c1''])
             (PList [PStr ''r1'', PStr ''r2''])) \<and>
   getDepths nested_grid = Inr [2, 2, 2] \<and>
   node_at nested_grid [KStr ''t'', KStr ''rows'', KStr ''k''] = Some (PInt 1) \<and>
   map fst (items_of (node_at nested_grid [KStr ''t''])) =
     [KStr ''rows'', KStr ''columns'', KStr ''matrix''] \<and>
   fst (asDataFrame no_refusal nested_grid) = nested_grid"
  unfolding grid_tree_def nested_grid_def by code_simp

text \<open>
  C9, amended: \<^verbatim>\<open>asDataFrame\<close> leaves every node of the tree as it is (the same payload, or
  a dictionary with the same keys), unless the node is, or lies below, a dictionary at
  the level of \<^verbatim>\<open>len(labels) - 2\<close>, one level above the leaves, that is encoded as a grid
  or as an overlap and has been replaced by its one tabular object; a dictionary of
  that level with neither encoding is left exactly as it is. In a tree of uniform depth
  whose nodes at that level are all dictionaries, and where pandas refuses none of the
  tabular objects, every encoded dictionary of that level is replaced by its tabular
  object.
\<close>

theorem asDataFrame_frame:
  assumes wf: "well_formed T"
  shows "(\<forall>q. same_node (node_at (fst (asDataFrame raises T)) q) (node_at T q) \<or>
            (\<exists>p kvs d c i. take (length p) q = p \<and> branch_at T p (PDict kvs) \<and>
               frame_call kvs = Some (d, c, i) \<and>
               node_at (fst (asDataFrame raises T)) p = Some (PFrame d c i))) \<and>
         (\<forall>p kvs. branch_at T p (PDict kvs) \<and> frame_call kvs = None \<longrightarrow>
            node_at (fst (asDataFrame raises T)) p = Some (PDict kvs)) \<and>
         ((\<exists>items levels d. T = PDict items \<and> items \<noteq> [] \<and> getDepths T = Inr levels \<and>
              levels \<noteq> [] \<and> list_all (\<lambda>l. l = d) levels) \<and>
          (\<forall>p v. branch_at T p v \<longrightarrow> is_dict v) \<and>
          (\<forall>p kvs d c i. branch_at T p (PDict kvs) \<and> frame_call kvs = Some (d, c, i) \<longrightarrow>
             raises d c i = None) \<longrightarrow>
            (\<forall>p kvs d c i. branch_at T p (PDict kvs) \<and> frame_call kvs = Some (d, c, i) \<longrightarrow>
               node_at (fst (asDataFrame raises T)) p = Some (PFrame d c i)))"
proof -
  define T' where "T' = fst (asDataFrame raises T)"
  have frame: "(\<forall>q. same_node (node_at T' q) (node_at T q) \<or>
            (\<exists>p kvs d c i. take (length p) q = p \<and> branch_at T p (PDict kvs) \<and>
               frame_call kvs = Some (d, c, i) \<and> node_at T' p = Some (PFrame d c i))) \<and>
         (\<forall>p kvs. branch_at T p (PDict kvs) \<and> frame_call kvs = None \<longrightarrow>
            node_at T' p = Some (PDict kvs))"
    using asDataFrame_tree [of raises T]
  proof
    assume "fst (asDataFrame raises T) = T"
    then have "T' = T" by (simp add: T'_def)
    then show ?thesis by (simp add: branch_at_def)
  next
    assume "\<exists>kvs. T = PDict kvs \<and> kvs \<noteq> [] \<and>
      fst (asDataFrame raises T) =
        fst (normalize_branches raises
               (getNodes_loop (map (\<lambda>x. ([], 0, x)) kvs) (int (length (getPaths T)) - 2)) T)"
    then obtain kvs0 where T: "T = PDict kvs0" and
      f: "T' = fst (normalize_branches raises
               (getNodes_loop (map (\<lambda>x. ([], 0, x)) kvs0) (int (length (getPaths T)) - 2)) T)"
      by (auto simp: T'_def)
    obtain data' err where
      nb: "normalize_branches raises
             (getNodes_loop (map (\<lambda>x. ([], 0, x)) kvs0) (int (length (getPaths T)) - 2)) T =
           (data', err)"
      by (cases "normalize_branches raises
             (getNodes_loop (map (\<lambda>x. ([], 0, x)) kvs0) (int (length (getPaths T)) - 2)) T")
    with f have "T' = data'" by simp
    with normalize_branches_nodes [OF wf T nb] show ?thesis by simp
  qed
  have all: "\<forall>p kvs d c i. branch_at T p (PDict kvs) \<and> frame_call kvs = Some (d, c, i) \<longrightarrow>
               node_at T' p = Some (PFrame d c i)"
    if u: "\<exists>items levels d. T = PDict items \<and> items \<noteq> [] \<and> getDepths T = Inr levels \<and>
              levels \<noteq> [] \<and> list_all (\<lambda>l. l = d) levels"
      and dicts: "\<forall>p v. branch_at T p v \<longrightarrow> is_dict v"
      and acc: "\<forall>p kvs d c i. branch_at T p (PDict kvs) \<and> frame_call kvs = Some (d, c, i) \<longrightarrow>
             raises d c i = None"
  proof -
    from u obtain kvs0 levels d where T: "T = PDict kvs0" and u: "kvs0 \<noteq> []"
      "getDepths (PDict kvs0) = Inr levels" "levels \<noteq> []" "list_all (\<lambda>l. l = d) levels"
      by auto
    obtain data' err where
      nb: "normalize_branches raises
             (getNodes_loop (map (\<lambda>x. ([], 0, x)) kvs0) (int (length (getPaths T)) - 2)) T =
           (data', err)"
      by (cases "normalize_branches raises
             (getNodes_loop (map (\<lambda>x. ([], 0, x)) kvs0) (int (length (getPaths T)) - 2)) T")
    from asDataFrame_tree_uniform [OF u, of raises] nb T have "T' = data'"
      by (auto simp: T'_def split: option.splits sum.splits)
    with normalize_branches_nodes [OF wf T nb] dicts acc show ?thesis by blast
  qed
  from frame all show ?thesis unfolding T'_def by blast
qed

lemma getPaths_grid_tree: "length (getPaths grid_tree) = 2"
  by (simp add: grid_tree_def getPaths_def getPaths_loop.simps)

text \<open>
  On the tree of the first example, with a constructor that refuses nothing, the grid
  \<^verbatim>\<open>t\<close> is replaced and the branch \<^verbatim>\<open>u\<close>, which has neither encoding, is left as it is.
\<close>

theorem asDataFrame_frame_witness:
  "well_formed grid_tree \<and>
   node_at (fst (asDataFrame no_refusal grid_tree)) [KStr ''t''] =
     Some (PFrame (PList [PList [PInt 1], PList [PInt 2]]) (PList [PStr ''c1''])
             (PList [PStr ''r1'', PStr ''r2''])) \<and>
   node_at (fst (asDataFrame no_refusal grid_tree)) [KStr ''u''] =
     Some (PDict [(KStr ''x'', PList [PInt 1])])"
proof -
  have wf: "well_formed grid_tree" by (simp add: grid_tree_def)
  have gd: "getDepths grid_tree = Inr [1, 1, 1, 1]" by (simp add: grid_tree_def getDepths_def)
  have dicts: "\<forall>p v. branch_at grid_tree p v \<longrightarrow> is_dict v"
  proof (intro allI impI)
    fix p v assume b: "branch_at grid_tree p v"
    then obtain k where p: "p = [k]"
      by (cases p) (auto simp: branch_at_def getPaths_grid_tree)
    with b show "is_dict v"
      by (auto simp: branch_at_def grid_tree_def split: if_splits)
  qed
  have bt: "branch_at grid_tree [KStr ''t'']
      (PDict [(KStr ''rows'', PList [PStr ''r1'', PStr ''r2'']),
              (KStr ''columns'', PList [PStr ''c1'']),
              (KStr ''matrix'', PList [PList [PInt 1], PList [PInt 2]])])"
    by (simp add: branch_at_def getPaths_grid_tree) (simp add: grid_tree_def)
  have fc: "frame_call [(KStr ''rows'', PList [PStr ''r1'', PStr ''r2'']),
              (KStr ''columns'', PList [PStr ''c1'']),
              (KStr ''matrix'', PList [PList [PInt 1], PList [PInt 2]])] =
      Some (PList [PList [PInt 1], PList [PInt 2]], PList [PStr ''c1''],
            PList [PStr ''r1'', PStr ''r2''])"
    by (simp add: frame_call_def)
  have bu: "branch_at grid_tree [KStr ''u''] (PDict [(KStr ''x'', PList [PInt 1])])"
    by (simp add: branch_at_def getPaths_grid_tree) (simp add: grid_tree_def)
  have fu: "frame_call [(KStr ''x'', PList [PInt 1])] = None"
    by (simp add: frame_call_def overlap_keys_def)
  have u: "\<exists>items levels d. grid_tree = PDict items \<and> items \<noteq> [] \<and>
      getDepths grid_tree = Inr levels \<and> levels \<noteq> [] \<and> list_all (\<lambda>l. l = d) levels"
    using gd by (auto simp: grid_tree_def)
  have acc: "\<forall>p kvs d c i. branch_at grid_tree p (PDict kvs) \<and> frame_call kvs = Some (d, c, i) \<longrightarrow>
      no_refusal d c i = None"
    by (simp add: no_refusal_def)
  note fr = asDataFrame_frame [OF wf, of no_refusal]
  from fr u dicts acc bt fc
  have t: "node_at (fst (asDataFrame no_refusal grid_tree)) [KStr ''t''] =
     Some (PFrame (PList [PList [PInt 1], PList [PInt 2]]) (PList [PStr ''c1''])
             (PList [PStr ''r1'', PStr ''r2'']))"
    by blast
  from fr bu fu
  have "node_at (fst (asDataFrame no_refusal grid_tree)) [KStr ''u''] =
     Some (PDict [(KStr ''x'', PList [PInt 1])])"
    by blast
  with wf t show ?thesis by simp
qed

subsection \<open>The round trip of the transposition\<close>

lemma dicts_above_child:
  "dicts_above (Suc n) (PDict kvs) \<Longrightarrow> map_of kvs k = Some v \<Longrightarrow> dicts_above n v"
  unfolding dicts_above_def
proof (intro allI impI)
  fix p w assume a: "\<forall>p v. length p < Suc n \<and> node_at (PDict kvs) p = Some v \<longrightarrow> is_dict v"
    and m: "map_of kvs k = Some v" and b: "length p < n \<and> node_at v p = Some w"
  from b m have "length (k # p) < Suc n \<and> node_at (PDict kvs) (k # p) = Some w" by simp
  with a show "is_dict w" by blast
qed

lemma dicts_above_root: "dicts_above (Suc n) T \<Longrightarrow> is_dict T"
  unfolding dicts_above_def by (metis length_0_conv node_at.simps(1) zero_less_Suc list.size(3))

lemma getLeaf_node_at:
  "dicts_above n T \<Longrightarrow> length p \<le> n \<Longrightarrow> getLeaf T p = Inr (none_to_PNone (node_at T p))"
proof (induction p arbitrary: T n)
  case Nil
  then show ?case by (simp add: none_to_PNone_def)
next
  case (Cons k p)
  then obtain m where n: "n = Suc m" by (cases n) auto
  with Cons.prems have "is_dict T" by (auto dest: dicts_above_root)
  then obtain kvs where T: "T = PDict kvs" by (cases T) auto
  show ?case
  proof (cases "map_of kvs k")
    case None
    with T show ?thesis by (simp add: none_to_PNone_def)
  next
    case (Some v)
    from dicts_above_child [OF Cons.prems(1) [unfolded n T] Some] have "dicts_above m v" .
    from Cons.IH [OF this] Cons.prems(2) n have "getLeaf v p = Inr (none_to_PNone (node_at v p))" by simp
    with T Some show ?thesis by simp
  qed
qed

lemma getLeaf_below_node:
  "node_at T p = Some w \<Longrightarrow> getLeaf T (p @ r) = getLeaf w r"
  by (induction T p rule: node_at.induct) (auto split: option.splits)

lemma containers_along_nodes:
  "(\<forall>q v. length q < length r \<and> take (length q) r = q \<and> node_at nt q = Some v \<longrightarrow> is_dict v) \<Longrightarrow>
   containers_along nt r"
proof (induction r arbitrary: nt)
  case Nil
  then show ?case by simp
next
  case (Cons k r)
  from Cons.prems [rule_format, of "[]" nt] have "is_dict nt" by simp
  then obtain kvs where nt: "nt = PDict kvs" by (cases nt) auto
  show ?case
  proof (cases "map_of kvs k")
    case None
    with nt show ?thesis by simp
  next
    case (Some w)
    have "containers_along w r"
    proof (rule Cons.IH, intro allI impI)
      fix q v assume "length q < length r \<and> take (length q) r = q \<and> node_at w q = Some v"
      with Some nt have "length (k # q) < length (k # r) \<and> take (length (k # q)) (k # r) = k # q \<and>
          node_at nt (k # q) = Some v" by simp
      with Cons.prems show "is_dict v" by blast
    qed
    with nt Some show ?thesis by simp
  qed
qed

lemma node_at_put_path_prefix:
  "containers_along nt r \<Longrightarrow> length q < length r \<Longrightarrow> take (length q) r = q \<Longrightarrow>
   \<exists>d. node_at (put_path nt r v) q = Some (PDict d)"
proof (induction nt r v arbitrary: q rule: put_path.induct)
  case (1 w v)
  then show ?case by simp
next
  case (2 kvs k p v)
  show ?case
  proof (cases q)
    case Nil
    then show ?thesis by simp
  next
    case (Cons k' q')
    with 2(3,4) have k: "k' = k" and l: "length q' < length p" "take (length q') p = q'" by auto
    let ?w = "case map_of kvs k of None \<Rightarrow> PDict [] | Some w \<Rightarrow> w"
    from 2(2) have "containers_along ?w p" by (auto split: option.splits)
    from 2(1) [OF this l] obtain d where "node_at (put_path ?w p v) q' = Some (PDict d)" by blast
    with Cons k show ?thesis by (simp add: update_conv')
  qed
qed auto

lemma node_at_put_path_parent:
  "containers_along nt (p @ [s]) \<Longrightarrow>
   node_at (put_path nt (p @ [s]) v) p = Some (PDict (AList.update s v (items_of (node_at nt p))))"
proof (induction p arbitrary: nt)
  case Nil
  then obtain kvs where "nt = PDict kvs" by (cases nt) auto
  then show ?case by (simp add: items_of_def)
next
  case (Cons k p)
  then obtain kvs where nt: "nt = PDict kvs" by (cases nt) auto
  let ?w = "case map_of kvs k of None \<Rightarrow> PDict [] | Some w \<Rightarrow> w"
  from Cons.prems nt have c: "containers_along ?w (p @ [s])" by (auto split: option.splits)
  from Cons.IH [OF c]
  have "node_at (put_path ?w (p @ [s]) v) p = Some (PDict (AList.update s v (items_of (node_at ?w p))))" .
  moreover have "items_of (node_at ?w p) = items_of (node_at nt (k # p))"
    by (cases "map_of kvs k"; cases p) (auto simp: nt items_of_def)
  ultimately show ?case by (simp add: nt update_conv')
qed


lemma swop_f_append: "swop_f (a @ b) = swop_f a @ swop_f b"
  by (simp add: swop_f_def map_filter_def)

lemma swop_f_single [simp]: "swop_f [Some k] = [k]" "swop_f [None] = []"
  by (simp_all add: swop_f_def map_filter_simps)

lemma swop_f_map_Some [simp]: "swop_f (map Some xs) = xs"
  by (induction xs) (simp_all add: swop_f_def map_filter_simps)

lemma update_fresh: "k \<notin> fst ` set al \<Longrightarrow> AList.update k v al = al @ [(k, v)]"
  by (induction al) auto

lemma dicts_above_put_path:
  assumes d: "dicts_above n nt" and c: "containers_along nt r" and n: "n \<le> length r"
  shows "dicts_above n (put_path nt r v)"
  unfolding dicts_above_def
proof (intro allI impI)
  fix q x assume a: "length q < n \<and> node_at (put_path nt r v) q = Some x"
  show "is_dict x"
  proof (cases "take (length q) r = q")
    case True
    from a n have "length q < length r" by simp
    from node_at_put_path_prefix [OF c this True, of v] a show ?thesis by auto
  next
    case False
    from a n have "take (length r) q \<noteq> r" by auto
    from node_at_put_path_other [OF c this False, of v] a d show ?thesis
      by (auto simp: dicts_above_def)
  qed
qed

lemma swop_suffixes_dict:
  assumes q: "q = swop_f (prefix @ [Some p1] @ infx @ [Some p2])"
    and p: "p = swop_f (prefix @ [Some p2] @ infx @ [Some p1])"
    and w: "node_at T q = Some (PDict kvs)"
    and dk: "distinct (map fst kvs)"
    and vs: "\<forall>x \<in> set kvs. snd x \<noteq> PNone \<and> well_formed (snd x)"
    and lp: "length p = Suc l2"
  shows "kvs = done @ rest \<Longrightarrow> well_formed nt \<Longrightarrow> is_dict nt \<Longrightarrow> dicts_above (Suc l2) nt \<Longrightarrow>
     (node_at nt p = None \<and> done = []) \<or> node_at nt p = Some (PDict done) \<or>
       node_at nt p = Some (PDict kvs) \<Longrightarrow>
     \<exists>nt'. swop_suffixes T prefix p1 infx p2 (map (\<lambda>x. [Some (fst x)]) rest) nt = Inr nt' \<and>
       well_formed nt' \<and> is_dict nt' \<and> dicts_above (Suc l2) nt' \<and>
       ((node_at nt' p = None \<and> kvs = []) \<or> node_at nt' p = Some (PDict kvs)) \<and>
       (\<forall>q'. length q' = Suc l2 \<and> q' \<noteq> p \<longrightarrow> node_at nt' q' = node_at nt q')"
proof (induction rest arbitrary: "done" nt)
  case Nil
  then show ?case by auto
next
  case (Cons x rest)
  obtain s v where x: "x = (s, v)" by (cases x)
  from Cons.prems(1) x have mem: "(s, v) \<in> set kvs" by simp
  with dk have ms: "map_of kvs s = Some v" by (simp add: map_of_distinct_iff)
  from mem vs have vn: "v \<noteq> PNone" and wv: "well_formed v" by auto
  have old: "swop_f (prefix @ Some p1 # infx @ [Some p2, Some s]) = q @ [s]"
    by (simp add: q swop_f_def map_filter_def)
  have new: "swop_f (prefix @ Some p2 # infx @ [Some p1, Some s]) = p @ [s]"
    by (simp add: p swop_f_def map_filter_def)
  from getLeaf_below_node [OF w, of "[s]"] ms have gl: "getLeaf T (q @ [s]) = Inr v" by simp
  have ca: "containers_along nt (p @ [s])"
  proof (rule containers_along_nodes, intro allI impI)
    fix q' u assume a: "length q' < length (p @ [s]) \<and> take (length q') (p @ [s]) = q' \<and>
        node_at nt q' = Some u"
    show "is_dict u"
    proof (cases "length q' < Suc l2")
      case True
      with a Cons.prems(4) show ?thesis by (auto simp: dicts_above_def)
    next
      case False
      with a lp have "q' = p" by auto
      with a Cons.prems(5) show ?thesis by auto
    qed
  qed
  let ?nt = "put_path nt (p @ [s]) v"
  have sl: "setLeaf nt (p @ [s]) v = Inr ?nt" by (rule setLeaf_put_path) (simp_all add: ca)
  have wf': "well_formed ?nt" using Cons.prems(2) wv by (rule well_formed_put_path)
  have id': "is_dict ?nt" using Cons.prems(3) by (rule put_path_is_dict) simp
  have da': "dicts_above (Suc l2) ?nt"
    using Cons.prems(4) ca by (rule dicts_above_put_path) (simp add: lp)
  have node: "node_at ?nt p = Some (PDict (AList.update s v (items_of (node_at nt p))))"
    using ca by (rule node_at_put_path_parent)
  have sfresh: "s \<notin> fst ` set done"
    using dk Cons.prems(1) x by auto
  from Cons.prems(5)
  have cur': "(node_at ?nt p = None \<and> done @ [x] = []) \<or> node_at ?nt p = Some (PDict (done @ [x])) \<or>
       node_at ?nt p = Some (PDict kvs)"
  proof (elim disjE)
    assume "node_at nt p = None \<and> done = []"
    with node x show ?thesis by (simp add: items_of_def)
  next
    assume "node_at nt p = Some (PDict done)"
    with node x sfresh show ?thesis by (simp add: items_of_def update_fresh)
  next
    assume "node_at nt p = Some (PDict kvs)"
    with node ms show ?thesis by (simp add: items_of_def update_triv)
  qed
  have others: "node_at ?nt q' = node_at nt q'" if "length q' = Suc l2" "q' \<noteq> p" for q'
    using that lp by (intro node_at_put_path_other [OF ca]) auto
  from Cons.prems(1) have k': "kvs = (done @ [x]) @ rest" by simp
  from Cons.IH [OF k' wf' id' da' cur'] obtain nt' where
    r: "swop_suffixes T prefix p1 infx p2 (map (\<lambda>x. [Some (fst x)]) rest) ?nt = Inr nt'"
    and props: "well_formed nt'" "is_dict nt'" "dicts_above (Suc l2) nt'"
       "(node_at nt' p = None \<and> kvs = []) \<or> node_at nt' p = Some (PDict kvs)"
    and oth: "\<forall>q'. length q' = Suc l2 \<and> q' \<noteq> p \<longrightarrow> node_at nt' q' = node_at ?nt q'"
    by blast
  have "swop_suffixes T prefix p1 infx p2 (map (\<lambda>x. [Some (fst x)]) (x # rest)) nt = Inr nt'"
    using r gl sl vn by (simp add: x old new Let_def)
  with props oth others show ?case by auto
qed


lemma swap_path_length [simp]: "length (swap_path i j q) = length q"
  by (simp add: swap_path_def)

lemma swap_path_twice: "i < length q \<Longrightarrow> j < length q \<Longrightarrow> swap_path i j (swap_path i j q) = q"
  by (auto simp: swap_path_def intro!: nth_equalityI simp: nth_list_update)

lemma swap_path_concat:
  "length pre = l1 \<Longrightarrow> length mid = l2 - Suc l1 \<Longrightarrow> l1 < l2 \<Longrightarrow>
   swap_path l1 l2 (pre @ [p1] @ mid @ [p2]) = pre @ [p2] @ mid @ [p1]"
  by (auto simp: swap_path_def list_update_append nth_append split: nat.splits)

lemma unique_from_distinct:
  "distinct xs \<Longrightarrow> set s \<inter> set xs = {} \<Longrightarrow> unique_from s xs = xs"
  by (induction xs arbitrary: s) auto

lemma unique_distinct: "distinct xs \<Longrightarrow> unique xs = xs"
  by (simp add: unique_def unique_from_distinct)

lemma getPaths_no_keys: "\<not> is_dict w \<Longrightarrow> sound w \<Longrightarrow> getPaths w = []"
  by (cases w) (simp_all add: getPaths_def getPaths_loop.simps)

lemma getPaths_empty_dict: "getPaths (PDict []) = []"
  by (simp add: getPaths_def getPaths_loop.simps)

lemma getPaths_dict:
  "kvs \<noteq> [] \<Longrightarrow> getPaths (PDict kvs) = unique (map fst kvs) # getPaths_loop (map snd kvs)"
  by (simp add: getPaths_def getPaths_loop.simps [of "[PDict kvs]"])

lemma payloads_below_dicts_above: "payloads_below n T \<Longrightarrow> dicts_above n T"
  unfolding dicts_above_def
proof (induction n T rule: payloads_below.induct)
  case (1 v)
  then show ?case by simp
next
  case (2 n kvs)
  show ?case
  proof (intro allI impI)
    fix p v assume a: "length p < Suc n \<and> node_at (PDict kvs) p = Some v"
    show "is_dict v"
    proof (cases p)
      case Nil
      with a show ?thesis by auto
    next
      case (Cons k p')
      with a obtain u where u: "map_of kvs k = Some u" "node_at u p' = Some v"
        by (auto split: option.splits)
      from u(1) have m: "(k, u) \<in> set kvs" by (rule map_of_SomeD)
      with 2(2) have "payloads_below n u" by (auto simp: list_all_iff)
      with 2(1) [of "(k, u)"] m a Cons u(2) show ?thesis by auto
    qed
  qed
qed auto

lemma payloads_below_sound:
  "payloads_below n T \<Longrightarrow> length p = n \<Longrightarrow> node_at T p = Some w \<Longrightarrow> sound w"
proof (induction n T arbitrary: p rule: payloads_below.induct)
  case (1 v)
  then show ?case by simp
next
  case (2 n kvs)
  from 2(3) obtain k p' where p: "p = k # p'" by (cases p) auto
  with 2(4) obtain u where u: "map_of kvs k = Some u" "node_at u p' = Some w"
    by (auto split: option.splits)
  from u(1) have m: "(k, u) \<in> set kvs" by (rule map_of_SomeD)
  with 2(2) have "payloads_below n u" by (auto simp: list_all_iff)
  with 2(1) [of "(k, u)" p'] m u(2) 2(3) p show ?case by simp
qed auto

lemma well_formed_node: "well_formed T \<Longrightarrow> node_at T p = Some w \<Longrightarrow> well_formed w"
proof (induction T p rule: node_at.induct)
  case (2 kvs k p)
  then obtain u where u: "map_of kvs k = Some u" "node_at u p = Some w"
    by (auto split: option.splits)
  from u(1) have "(k, u) \<in> set kvs" by (rule map_of_SomeD)
  with 2(2) have "well_formed u" by (auto simp: list_all_iff)
  from 2(1) [OF u(1) this u(2)] show ?case .
qed auto

lemma swop_combo:
  assumes wfT: "well_formed T" and pb: "payloads_below (Suc l2) T" and l: "l1 < l2"
    and lpre: "length (swop_f prefix) = l1" and linf: "length (swop_f infx) = l2 - Suc l1"
    and inv: "swop_inv T l1 l2 nt"
    and q: "q = swop_f (prefix @ [Some p1] @ infx @ [Some p2])"
  shows "\<exists>nt'.
     (case getLeaf T q of
        Inl e \<Rightarrow> Inl e
      | Inr w \<Rightarrow>
          (let subpaths = getPaths w;
               suffixes = (if subpaths \<noteq> [] then map (\<lambda>k. [Some k]) (subpaths ! 0) else [[None]])
           in swop_suffixes T prefix p1 infx p2 suffixes nt)) = Inr nt' \<and>
     swop_inv T l1 l2 nt' \<and>
     (\<forall>q'. length q' = Suc l2 \<and> q' \<noteq> swap_path l1 l2 q \<longrightarrow> node_at nt' q' = node_at nt q') \<and>
     node_at nt' (swap_path l1 l2 q) = node_at T q"
proof -
  define p where "p = swop_f (prefix @ [Some p2] @ infx @ [Some p1])"
  have qq: "q = swop_f prefix @ [p1] @ swop_f infx @ [p2]"
    by (simp add: q swop_f_def map_filter_def)
  have pp: "p = swop_f prefix @ [p2] @ swop_f infx @ [p1]"
    by (simp add: p_def swop_f_def map_filter_def)
  from lpre linf l have lq: "length q = Suc l2" and lp: "length p = Suc l2" by (auto simp: qq pp)
  have sw: "swap_path l1 l2 q = p" unfolding qq pp using lpre linf l by (rule swap_path_concat)
  from lq l have sw2: "swap_path l1 l2 p = q" unfolding sw [symmetric] by (simp add: swap_path_twice)
  from pb have daT: "dicts_above (Suc l2) T" by (rule payloads_below_dicts_above)
  from inv have wf: "well_formed nt" and idn: "is_dict nt" and da: "dicts_above (Suc l2) nt"
    and cp: "\<forall>q'. length q' = Suc l2 \<longrightarrow>
        node_at nt q' = None \<or> node_at nt q' = node_at T (swap_path l1 l2 q')"
    by (simp_all add: swop_inv_def)
  from cp lp sw2 have cur: "node_at nt p = None \<or> node_at nt p = node_at T q" by auto
  from getLeaf_node_at [OF daT, of q] lq have gl: "getLeaf T q = Inr (none_to_PNone (node_at T q))" by simp
  have oldN: "swop_f (prefix @ Some p1 # infx @ [Some p2, None]) = q"
    by (simp add: q swop_f_def map_filter_def)
  have newN: "swop_f (prefix @ Some p2 # infx @ [Some p1, None]) = p"
    by (simp add: p_def swop_f_def map_filter_def)
  have keep: "swop_inv T l1 l2 nt' \<and>
     (\<forall>q'. length q' = Suc l2 \<and> q' \<noteq> p \<longrightarrow> node_at nt' q' = node_at nt q') \<and>
     node_at nt' p = node_at T q"
    if a: "well_formed nt'" "is_dict nt'" "dicts_above (Suc l2) nt'"
      "node_at nt' p = node_at T q"
      "\<forall>q'. length q' = Suc l2 \<and> q' \<noteq> p \<longrightarrow> node_at nt' q' = node_at nt q'" for nt'
  proof -
    have "node_at nt' q' = None \<or> node_at nt' q' = node_at T (swap_path l1 l2 q')"
      if "length q' = Suc l2" for q'
    proof (cases "q' = p")
      case True
      with a(4) sw2 show ?thesis by simp
    next
      case False
      with a(5) that cp show ?thesis by auto
    qed
    with a show ?thesis by (simp add: swop_inv_def)
  qed
  show ?thesis
  proof (cases "node_at T q")
    case None
    with gl have g: "getLeaf T q = Inr PNone" by (simp add: none_to_PNone_def)
    have "getPaths PNone = []" by (simp add: getPaths_def getPaths_loop.simps)
    with g have r: "(case getLeaf T q of
        Inl e \<Rightarrow> Inl e
      | Inr w \<Rightarrow>
          (let subpaths = getPaths w;
               suffixes = (if subpaths \<noteq> [] then map (\<lambda>k. [Some k]) (subpaths ! 0) else [[None]])
           in swop_suffixes T prefix p1 infx p2 suffixes nt)) = Inr nt"
      by (simp add: Let_def oldN)
    from cur None have "node_at nt p = node_at T q" by auto
    with keep [of nt] wf idn da have "swop_inv T l1 l2 nt \<and>
     (\<forall>q'. length q' = Suc l2 \<and> q' \<noteq> p \<longrightarrow> node_at nt q' = node_at nt q') \<and>
     node_at nt p = node_at T q" by simp
    with r show ?thesis unfolding sw by blast
  next
    case (Some w)
    with gl have g: "getLeaf T q = Inr w" by (simp add: none_to_PNone_def)
    from payloads_below_sound [OF pb lq Some] have sw': "sound w" .
    from well_formed_node [OF wfT Some] have wfw: "well_formed w" .
    show ?thesis
    proof (cases "\<exists>kvs. w = PDict kvs \<and> kvs \<noteq> []")
      case True
      then obtain kvs where w: "w = PDict kvs" and ne: "kvs \<noteq> []" by blast
      from wfw w have dk: "distinct (map fst kvs)" by simp
      have vs: "\<forall>x \<in> set kvs. snd x \<noteq> PNone \<and> well_formed (snd x)"
        using sw' wfw w by (auto simp: list_all_iff)
      from cur Some w
      have c0: "(node_at nt p = None \<and> [] = []) \<or> node_at nt p = Some (PDict []) \<or>
          node_at nt p = Some (PDict kvs)" by auto
      from swop_suffixes_dict [OF q p_def Some [unfolded w] dk vs lp _ wf idn da c0, of kvs]
      obtain nt' where
        r: "swop_suffixes T prefix p1 infx p2 (map (\<lambda>x. [Some (fst x)]) kvs) nt = Inr nt'"
        and props: "well_formed nt'" "is_dict nt'" "dicts_above (Suc l2) nt'"
          "(node_at nt' p = None \<and> kvs = []) \<or> node_at nt' p = Some (PDict kvs)"
          "\<forall>q'. length q' = Suc l2 \<and> q' \<noteq> p \<longrightarrow> node_at nt' q' = node_at nt q'"
        by auto
      from props(4) ne Some w have "node_at nt' p = node_at T q" by simp
      from keep [OF props(1-3) this props(5)] have k: "swop_inv T l1 l2 nt' \<and>
        (\<forall>q'. length q' = Suc l2 \<and> q' \<noteq> p \<longrightarrow> node_at nt' q' = node_at nt q') \<and>
        node_at nt' p = node_at T q" .
      from ne dk have "getPaths w \<noteq> []" "getPaths w ! 0 = map fst kvs"
        by (simp_all add: w getPaths_dict unique_distinct)
      with g r have "(case getLeaf T q of
        Inl e \<Rightarrow> Inl e
      | Inr w \<Rightarrow>
          (let subpaths = getPaths w;
               suffixes = (if subpaths \<noteq> [] then map (\<lambda>k. [Some k]) (subpaths ! 0) else [[None]])
           in swop_suffixes T prefix p1 infx p2 suffixes nt)) = Inr nt'"
        by (simp add: Let_def comp_def)
      with k show ?thesis unfolding sw by blast
    next
      case False
      then have gp: "getPaths w = []"
        using sw' by (cases "is_dict w") (auto simp: getPaths_no_keys getPaths_empty_dict elim!: is_dict.elims)
      from sw' have wn: "w \<noteq> PNone" by auto
      have ca: "containers_along nt p"
      proof (rule containers_along_nodes, intro allI impI)
        fix q' u assume "length q' < length p \<and> take (length q') p = q' \<and> node_at nt q' = Some u"
        with da lp show "is_dict u" by (auto simp: dicts_above_def)
      qed
      let ?nt = "put_path nt p w"
      from lp have pne: "p \<noteq> []" by auto
      have sl: "setLeaf nt p w = Inr ?nt" using pne ca by (rule setLeaf_put_path)
      have a1: "well_formed ?nt" using wf wfw by (rule well_formed_put_path)
      have a2: "is_dict ?nt" using idn pne by (rule put_path_is_dict)
      have a3: "dicts_above (Suc l2) ?nt" using da ca by (rule dicts_above_put_path) (simp add: lp)
      have a4: "node_at ?nt p = node_at T q" using node_at_put_path [OF ca, of w "[]"] Some by simp
      have a5: "\<forall>q'. length q' = Suc l2 \<and> q' \<noteq> p \<longrightarrow> node_at ?nt q' = node_at nt q'"
        using lp by (auto intro!: node_at_put_path_other [OF ca])
      from keep [OF a1 a2 a3 a4 a5] have k: "swop_inv T l1 l2 ?nt \<and>
        (\<forall>q'. length q' = Suc l2 \<and> q' \<noteq> p \<longrightarrow> node_at ?nt q' = node_at nt q') \<and>
        node_at ?nt p = node_at T q" .
      from g gp wn sl have "(case getLeaf T q of
        Inl e \<Rightarrow> Inl e
      | Inr w \<Rightarrow>
          (let subpaths = getPaths w;
               suffixes = (if subpaths \<noteq> [] then map (\<lambda>k. [Some k]) (subpaths ! 0) else [[None]])
           in swop_suffixes T prefix p1 infx p2 suffixes nt)) = Inr ?nt"
        by (simp add: Let_def oldN newN)
      with k show ?thesis unfolding sw by blast
    qed
  qed
qed


lemma swop_combo_copied:
  assumes wfT: "well_formed T" and pb: "payloads_below (Suc l2) T" and l: "l1 < l2"
    and lpre: "length (swop_f prefix) = l1" and linf: "length (swop_f infx) = l2 - Suc l1"
    and inv: "swop_inv T l1 l2 nt"
  shows "\<exists>nt'. swop_inner T p1 p2 ((prefix, infx) # rest) nt = swop_inner T p1 p2 rest nt' \<and>
     swop_inv T l1 l2 nt' \<and>
     (\<forall>q0. length q0 = Suc l2 \<and> copied T l1 l2 nt q0 \<longrightarrow> copied T l1 l2 nt' q0) \<and>
     copied T l1 l2 nt' (swop_f (prefix @ [Some p1] @ infx @ [Some p2]))"
proof -
  define q where "q = swop_f (prefix @ [Some p1] @ infx @ [Some p2])"
  have lq: "length q = Suc l2"
    using lpre linf l by (simp add: q_def swop_f_def map_filter_def)
  from swop_combo [OF wfT pb l lpre linf inv q_def, of ] obtain nt' where
    r: "(case getLeaf T q of
        Inl e \<Rightarrow> Inl e
      | Inr w \<Rightarrow>
          (let subpaths = getPaths w;
               suffixes = (if subpaths \<noteq> [] then map (\<lambda>k. [Some k]) (subpaths ! 0) else [[None]])
           in swop_suffixes T prefix p1 infx p2 suffixes nt)) = Inr nt'"
    and inv': "swop_inv T l1 l2 nt'"
    and oth: "\<forall>q'. length q' = Suc l2 \<and> q' \<noteq> swap_path l1 l2 q \<longrightarrow> node_at nt' q' = node_at nt q'"
    and here: "node_at nt' (swap_path l1 l2 q) = node_at T q"
    by blast
  have mono: "copied T l1 l2 nt' q0" if q0: "length q0 = Suc l2" "copied T l1 l2 nt q0" for q0
  proof (cases "swap_path l1 l2 q0 = swap_path l1 l2 q")
    case True
    then have "swap_path l1 l2 (swap_path l1 l2 q0) = swap_path l1 l2 (swap_path l1 l2 q)" by simp
    with q0(1) lq l have "q0 = q" by (simp add: swap_path_twice)
    with here show ?thesis by (simp add: copied_def)
  next
    case False
    with oth q0 show ?thesis by (simp add: copied_def)
  qed
  from r obtain w where gw: "getLeaf T q = Inr w"
    and sw: "swop_suffixes T prefix p1 infx p2
         (if getPaths w \<noteq> [] then map (\<lambda>k. [Some k]) (getPaths w ! 0) else [[None]]) nt = Inr nt'"
    by (cases "getLeaf T q") (simp_all add: Let_def del: swop_suffixes.simps)
  have "swop_inner T p1 p2 ((prefix, infx) # rest) nt = swop_inner T p1 p2 rest nt'"
    using gw sw unfolding q_def by (simp add: Let_def del: swop_suffixes.simps)
  with inv' mono here show ?thesis unfolding q_def [symmetric] copied_def by blast
qed

lemma swop_inner_copied:
  assumes wfT: "well_formed T" and pb: "payloads_below (Suc l2) T" and l: "l1 < l2"
  shows "\<forall>x \<in> set pis. length (swop_f (fst x)) = l1 \<and> length (swop_f (snd x)) = l2 - Suc l1 \<Longrightarrow>
     swop_inv T l1 l2 nt \<Longrightarrow>
     \<exists>nt'. swop_inner T p1 p2 pis nt = Inr nt' \<and> swop_inv T l1 l2 nt' \<and>
       (\<forall>q0. length q0 = Suc l2 \<and> copied T l1 l2 nt q0 \<longrightarrow> copied T l1 l2 nt' q0) \<and>
       (\<forall>x \<in> set pis. copied T l1 l2 nt' (swop_f (fst x @ [Some p1] @ snd x @ [Some p2])))"
proof (induction pis arbitrary: nt)
  case Nil
  then show ?case by simp
next
  case (Cons x pis)
  obtain prefix infx where x: "x = (prefix, infx)" by (cases x)
  from Cons.prems(1) x have lx: "length (swop_f prefix) = l1" "length (swop_f infx) = l2 - Suc l1"
    and rest: "\<forall>x \<in> set pis. length (swop_f (fst x)) = l1 \<and> length (swop_f (snd x)) = l2 - Suc l1"
    by auto
  from swop_combo_copied [OF wfT pb l lx Cons.prems(2), of p1 p2 pis] obtain nt1 where
    s: "swop_inner T p1 p2 ((prefix, infx) # pis) nt = swop_inner T p1 p2 pis nt1"
    and inv1: "swop_inv T l1 l2 nt1"
    and mono1: "\<forall>q0. length q0 = Suc l2 \<and> copied T l1 l2 nt q0 \<longrightarrow> copied T l1 l2 nt1 q0"
    and here1: "copied T l1 l2 nt1 (swop_f (prefix @ [Some p1] @ infx @ [Some p2]))"
    by blast
  from Cons.IH [OF rest inv1] obtain nt' where
    r: "swop_inner T p1 p2 pis nt1 = Inr nt'" and inv': "swop_inv T l1 l2 nt'"
    and mono: "\<forall>q0. length q0 = Suc l2 \<and> copied T l1 l2 nt1 q0 \<longrightarrow> copied T l1 l2 nt' q0"
    and all: "\<forall>x \<in> set pis. copied T l1 l2 nt' (swop_f (fst x @ [Some p1] @ snd x @ [Some p2]))"
    by blast
  have lq: "length (swop_f (prefix @ [Some p1] @ infx @ [Some p2])) = Suc l2"
    using lx l by (simp add: swop_f_def map_filter_def)
  from here1 mono lq have "copied T l1 l2 nt' (swop_f (prefix @ [Some p1] @ infx @ [Some p2]))"
    by blast
  with s r inv' mono mono1 all x show ?case by auto
qed

lemma swop_outer_copied:
  assumes wfT: "well_formed T" and pb: "payloads_below (Suc l2) T" and l: "l1 < l2"
    and pis: "\<forall>x \<in> set pis. length (swop_f (fst x)) = l1 \<and> length (swop_f (snd x)) = l2 - Suc l1"
  shows "swop_inv T l1 l2 nt \<Longrightarrow>
     \<exists>nt'. swop_outer T pps pis nt = Inr nt' \<and> swop_inv T l1 l2 nt' \<and>
       (\<forall>q0. length q0 = Suc l2 \<and> copied T l1 l2 nt q0 \<longrightarrow> copied T l1 l2 nt' q0) \<and>
       (\<forall>pp \<in> set pps. \<forall>x \<in> set pis.
          copied T l1 l2 nt' (swop_f (fst x @ [Some (fst pp)] @ snd x @ [Some (snd pp)])))"
proof (induction pps arbitrary: nt)
  case Nil
  then show ?case by simp
next
  case (Cons pp pps)
  obtain p1 p2 where pp: "pp = (p1, p2)" by (cases pp)
  from swop_inner_copied [OF wfT pb l pis Cons.prems, of p1 p2] obtain nt1 where
    s: "swop_inner T p1 p2 pis nt = Inr nt1" and inv1: "swop_inv T l1 l2 nt1"
    and mono1: "\<forall>q0. length q0 = Suc l2 \<and> copied T l1 l2 nt q0 \<longrightarrow> copied T l1 l2 nt1 q0"
    and all1: "\<forall>x \<in> set pis. copied T l1 l2 nt1 (swop_f (fst x @ [Some p1] @ snd x @ [Some p2]))"
    by blast
  from Cons.IH [OF inv1] obtain nt' where
    r: "swop_outer T pps pis nt1 = Inr nt'" and inv': "swop_inv T l1 l2 nt'"
    and mono: "\<forall>q0. length q0 = Suc l2 \<and> copied T l1 l2 nt1 q0 \<longrightarrow> copied T l1 l2 nt' q0"
    and all: "\<forall>pp \<in> set pps. \<forall>x \<in> set pis.
          copied T l1 l2 nt' (swop_f (fst x @ [Some (fst pp)] @ snd x @ [Some (snd pp)]))"
    by blast
  have lq: "length (swop_f (fst x @ [Some p1] @ snd x @ [Some p2])) = Suc l2" if "x \<in> set pis" for x
    using that pis l by (simp add: swop_f_def map_filter_def)
  have here: "\<forall>x \<in> set pis. copied T l1 l2 nt' (swop_f (fst x @ [Some p1] @ snd x @ [Some p2]))"
    using all1 mono lq by blast
  have "swop_outer T (pp # pps) pis nt = Inr nt'" using s r pp by simp
  with inv' mono mono1 all here pp show ?case by auto
qed


lemma set_unique_from: "set (unique_from s xs) = set xs - set s"
  by (induction xs arbitrary: s) auto

lemma set_unique [simp]: "set (unique xs) = set xs"
  by (simp add: unique_def set_unique_from)

lemma sweep_level: "list_all is_dict xs \<Longrightarrow> sweep xs = (level_keys xs, level_values xs)"
  unfolding level_keys_def level_values_def by (rule sweep_dicts)

lemma level_values_props:
  assumes "list_all (dicts_above (Suc n)) xs" and "list_all well_formed xs"
  shows "list_all (dicts_above n) (level_values xs)" and "list_all well_formed (level_values xs)"
proof -
  have "dicts_above n v \<and> well_formed v" if "v \<in> set (level_values xs)" for v
  proof -
    from that obtain y kvs kv where y: "y \<in> set xs" "y = PDict kvs" "kv \<in> set kvs" "v = snd kv"
      by (auto simp: level_values_def split: pyval.splits)
    from y(1) assms have dy: "dicts_above (Suc n) y" and wy: "well_formed y"
      unfolding list_all_iff by blast+
    from wy y(2,3) have "map_of kvs (fst kv) = Some (snd kv)" by (simp add: map_of_distinct_iff)
    from dicts_above_child [OF dy [unfolded y(2)] this] have "dicts_above n v" by (simp add: y(4))
    moreover from wy y(2,3,4) have "well_formed v" by (simp add: list_all_iff)
    ultimately show ?thesis by simp
  qed
  then show "list_all (dicts_above n) (level_values xs)" "list_all well_formed (level_values xs)"
    unfolding list_all_iff by blast+
qed

lemma all_dicts: "list_all (dicts_above (Suc n)) xs \<Longrightarrow> list_all is_dict xs"
  unfolding list_all_iff by (blast dest: dicts_above_root)

lemma getPaths_loop_covers:
  "x \<in> set xs \<Longrightarrow> node_at x q = Some w \<Longrightarrow> q \<noteq> [] \<Longrightarrow>
   list_all (dicts_above (length q)) xs \<Longrightarrow> list_all well_formed xs \<Longrightarrow>
   length q \<le> length (getPaths_loop xs) \<and>
   (\<forall>k < length q. q ! k \<in> set (getPaths_loop xs ! k))"
proof (induction q arbitrary: xs x)
  case Nil
  then show ?case by simp
next
  case (Cons k q)
  from Cons.prems(4) have da: "list_all (dicts_above (Suc (length q))) xs" by simp
  from all_dicts [OF da] have dicts: "list_all is_dict xs" .
  from sweep_level [OF dicts] have sw: "sweep xs = (level_keys xs, level_values xs)" .
  from dicts Cons.prems(1) obtain kvs where x: "x = PDict kvs"
    by (cases x) (auto simp: list_all_iff)
  with Cons.prems(2) obtain v where v: "map_of kvs k = Some v" "node_at v q = Some w"
    by (auto split: option.splits)
  from v(1) have kv: "(k, v) \<in> set kvs" by (rule map_of_SomeD)
  with Cons.prems(1) x have kin: "k \<in> set (level_keys xs)"
    unfolding level_keys_def by (force split: pyval.splits)
  from kv Cons.prems(1) x have vin: "v \<in> set (level_values xs)"
    unfolding level_values_def by (force split: pyval.splits)
  from kin have ne: "level_keys xs \<noteq> []" by auto
  have gp: "getPaths_loop xs = unique (level_keys xs) # getPaths_loop (level_values xs)"
    by (subst getPaths_loop.simps) (simp only: sw fst_conv snd_conv ne if_False)
  show ?case
  proof (cases "q = []")
    case True
    with gp kin show ?thesis by simp
  next
    case False
    from level_values_props [OF da Cons.prems(5)]
    have "list_all (dicts_above (length q)) (level_values xs)" "list_all well_formed (level_values xs)" .
    from Cons.IH [OF vin v(2) False this]
    have IH: "length q \<le> length (getPaths_loop (level_values xs))"
      "\<forall>k < length q. q ! k \<in> set (getPaths_loop (level_values xs) ! k)" by simp_all
    have "(k # q) ! i \<in> set (getPaths_loop xs ! i)" if "i < length (k # q)" for i
      using that IH(2) kin by (cases i) (simp_all add: gp)
    with IH(1) show ?thesis by (simp add: gp)
  qed
qed

lemma getPaths_loop_inhabited:
  "k < length (getPaths_loop xs) \<Longrightarrow> list_all (dicts_above (Suc k)) xs \<Longrightarrow>
   list_all well_formed xs \<Longrightarrow>
   \<exists>x \<in> set xs. \<exists>q w. length q = Suc k \<and> node_at x q = Some w"
proof (induction k arbitrary: xs)
  case 0
  from all_dicts [OF 0(2)] have dicts: "list_all is_dict xs" .
  from sweep_level [OF dicts] have sw: "sweep xs = (level_keys xs, level_values xs)" .
  from 0(1) have "getPaths_loop xs \<noteq> []" by auto
  then have "level_keys xs \<noteq> []"
    by (subst (asm) getPaths_loop.simps) (simp add: sw split: if_splits)
  then obtain y where y1: "y \<in> set xs"
    and y2: "(case y of PDict kvs \<Rightarrow> map fst kvs | _ \<Rightarrow> []) \<noteq> []"
    by (auto simp: level_keys_def)
  from y2 obtain kvs where y3: "y = PDict kvs" "kvs \<noteq> []" by (cases y) auto
  note y = y1 y3
  then obtain a b rest where "kvs = (a, b) # rest" by (cases kvs) auto
  with y have "node_at y [a] = Some b" by simp
  with y(1) show ?case by (intro bexI [of _ y] exI [of _ "[a]"]) auto
next
  case (Suc k)
  from all_dicts [OF Suc(3)] have dicts: "list_all is_dict xs" .
  from sweep_level [OF dicts] have sw: "sweep xs = (level_keys xs, level_values xs)" .
  from Suc(2) have ne: "level_keys xs \<noteq> []"
    by (subst (asm) getPaths_loop.simps) (auto simp: sw split: if_splits)
  have gp: "getPaths_loop xs = unique (level_keys xs) # getPaths_loop (level_values xs)"
    by (subst getPaths_loop.simps) (simp only: sw fst_conv snd_conv ne if_False)
  with Suc(2) have lk: "k < length (getPaths_loop (level_values xs))" by simp
  from level_values_props [OF Suc(3,4)]
  have p: "list_all (dicts_above (Suc k)) (level_values xs)" "list_all well_formed (level_values xs)" .
  from Suc(1) [OF lk p] obtain v q w where v: "v \<in> set (level_values xs)"
    and q: "length q = Suc k" "node_at v q = Some w" by blast
  from v obtain y kvs kv where y: "y \<in> set xs" "y = PDict kvs" "kv \<in> set kvs" "v = snd kv"
    by (auto simp: level_values_def split: pyval.splits)
  from y(1) Suc(4) have "well_formed y" unfolding list_all_iff by blast
  with y(2,3) have "map_of kvs (fst kv) = Some (snd kv)" by (simp add: map_of_distinct_iff)
  with q y have "node_at y (fst kv # q) = Some w" "length (fst kv # q) = Suc (Suc k)" by simp_all
  with y(1) show ?case by blast
qed

lemma in_swop_product:
  assumes "length xs = length ls" and "\<forall>i < length ls. xs ! i \<in> set (ls ! i)"
  shows "\<exists>opt \<in> set (swop_product ls). swop_f opt = xs"
proof (cases "ls = []")
  case True
  with assms show ?thesis by (simp add: swop_product_def)
next
  case False
  from assms have "list_all2 (\<lambda>x ys. x \<in> set ys) xs ls" by (simp add: list_all2_conv_all_nth)
  then have "xs \<in> set (product_lists ls)" by (simp add: product_lists_set)
  with False show ?thesis by (auto simp: swop_product_def intro!: bexI [of _ "map Some xs"])
qed

lemma swop_product_length: "opt \<in> set (swop_product ls) \<Longrightarrow> length (swop_f opt) = length ls"
  by (auto simp: swop_product_def in_set_product_lists_length split: if_splits)

lemma swop_f_combo:
  "swop_f (o1 @ [Some a] @ o2 @ [Some b]) = swop_f o1 @ [a] @ swop_f o2 @ [b]"
  by (simp add: swop_f_def map_filter_def)

lemma path_split:
  assumes "length q = Suc l2" and "l1 < l2"
  shows "q = take l1 q @ [q ! l1] @ drop (Suc l1) (take l2 q) @ [q ! l2]"
proof -
  have t: "take (Suc l2) q = q" using assms(1) by simp
  have f: "take (Suc l2) q = take l2 q @ [q ! l2]"
    by (rule take_Suc_conv_app_nth) (simp add: assms(1))
  have a: "q = take l2 q @ [q ! l2]" by (rule trans [OF t [symmetric] f])
  from assms have "l1 < length (take l2 q)" by simp
  from id_take_nth_drop [OF this] assms
  have "take l2 q = take l1 q @ [q ! l1] @ drop (Suc l1) (take l2 q)" by (simp add: min_def)
  then have "take l2 q @ [q ! l2] = take l1 q @ [q ! l1] @ drop (Suc l1) (take l2 q) @ [q ! l2]"
    by simp
  with a show ?thesis by simp
qed

lemma swop_inv_empty: "swop_inv T l1 l2 (PDict [])"
proof -
  have "node_at (PDict []) q = None" if "length q = Suc l2" for q using that by (cases q) auto
  moreover have "is_dict v" if "node_at (PDict []) p = Some v" for p v
    using that by (cases p) auto
  ultimately show ?thesis unfolding swop_inv_def dicts_above_def by simp blast
qed

lemma swop_once:
  assumes wfT: "well_formed T" and pb: "payloads_below (Suc l2) T" and l: "l1 < l2"
    and v: "l2 < length (getPaths T)"
  shows "\<exists>T'. swop T l1 l2 = Inr T' \<and> swop_inv T l1 l2 T' \<and>
     (\<forall>q. length q = Suc l2 \<longrightarrow> node_at T' (swap_path l1 l2 q) = node_at T q)"
proof -
  define paths where "paths = getPaths T"
  define pps where "pps = List.product (paths ! l1) (paths ! l2)"
  define pis where "pis = List.product (swop_product (take l1 paths))
      (swop_product (drop (l1 + 1) (take l2 paths)))"
  have sw: "swop T l1 l2 = swop_outer T pps pis (PDict [])"
    using l v by (simp add: swop_def Let_def paths_def pps_def pis_def)
  have lens: "\<forall>x \<in> set pis. length (swop_f (fst x)) = l1 \<and> length (swop_f (snd x)) = l2 - Suc l1"
    using l v by (auto simp: pis_def paths_def dest!: swop_product_length)
  from swop_outer_copied [OF wfT pb l lens swop_inv_empty, of pps] obtain T' where
    r: "swop_outer T pps pis (PDict []) = Inr T'" and inv: "swop_inv T l1 l2 T'"
    and all: "\<forall>pp \<in> set pps. \<forall>x \<in> set pis.
          copied T l1 l2 T' (swop_f (fst x @ [Some (fst pp)] @ snd x @ [Some (snd pp)]))"
    by blast
  from pb have daT: "dicts_above (Suc l2) T" by (rule payloads_below_dicts_above)
  have "node_at T' (swap_path l1 l2 q) = node_at T q" if lq: "length q = Suc l2" for q
  proof (cases "node_at T q")
    case None
    from inv lq have "node_at T' (swap_path l1 l2 q) = None \<or>
        node_at T' (swap_path l1 l2 q) = node_at T (swap_path l1 l2 (swap_path l1 l2 q))"
      by (simp add: swop_inv_def)
    with None lq l show ?thesis by (simp add: swap_path_twice)
  next
    case (Some w)
    from lq have qne: "q \<noteq> []" by auto
    from getPaths_loop_covers [of T "[T]" q w] Some qne daT wfT lq
    have cov: "\<forall>k < Suc l2. q ! k \<in> set (paths ! k)"
      by (simp add: paths_def getPaths_def)
    define pre where "pre = take l1 q"
    define mid where "mid = drop (Suc l1) (take l2 q)"
    from path_split [OF lq l] have qs: "q = pre @ [q ! l1] @ mid @ [q ! l2]"
      by (simp add: pre_def mid_def)
    have "\<exists>opt \<in> set (swop_product (take l1 paths)). swop_f opt = pre"
    proof (rule in_swop_product)
      show "length pre = length (take l1 paths)" using lq l v by (simp add: pre_def paths_def)
      show "\<forall>i < length (take l1 paths). pre ! i \<in> set (take l1 paths ! i)"
        using cov l by (simp add: pre_def)
    qed
    then obtain o1 where o1: "o1 \<in> set (swop_product (take l1 paths))" "swop_f o1 = pre" by blast
    have "\<exists>opt \<in> set (swop_product (drop (l1 + 1) (take l2 paths))). swop_f opt = mid"
    proof (rule in_swop_product)
      show "length mid = length (drop (l1 + 1) (take l2 paths))"
        using lq l v by (simp add: mid_def paths_def)
      show "\<forall>i < length (drop (l1 + 1) (take l2 paths)). mid ! i \<in> set (drop (l1 + 1) (take l2 paths) ! i)"
        using cov l lq v by (simp add: mid_def paths_def)
    qed
    then obtain o2 where o2: "o2 \<in> set (swop_product (drop (l1 + 1) (take l2 paths)))" "swop_f o2 = mid"
      by blast
    from cov l have m1: "(q ! l1, q ! l2) \<in> set pps" by (simp add: pps_def)
    from o1 o2 have m2: "(o1, o2) \<in> set pis" by (simp add: pis_def)
    from all m1 have "\<forall>x \<in> set pis. copied T l1 l2 T'
        (swop_f (fst x @ [Some (fst (q ! l1, q ! l2))] @ snd x @ [Some (snd (q ! l1, q ! l2))]))"
      by (rule bspec)
    from this m2 have "copied T l1 l2 T'
        (swop_f (fst (o1, o2) @ [Some (fst (q ! l1, q ! l2))] @ snd (o1, o2) @ [Some (snd (q ! l1, q ! l2))]))"
      by (rule bspec)
    then have "copied T l1 l2 T' (swop_f (o1 @ [Some (q ! l1)] @ o2 @ [Some (q ! l2)]))"
      by simp
    moreover have "swop_f (o1 @ [Some (q ! l1)] @ o2 @ [Some (q ! l2)]) = q"
      unfolding swop_f_combo o1(2) o2(2) using qs by simp
    ultimately show ?thesis by (simp add: copied_def)
  qed
  then have cp: "\<forall>q. length q = Suc l2 \<longrightarrow> node_at T' (swap_path l1 l2 q) = node_at T q"
    by blast
  from sw r have "swop T l1 l2 = Inr T'" by simp
  with inv cp show ?thesis by blast
qed

lemma payloads_below_nodes:
  "well_formed T \<Longrightarrow> dicts_above n T \<Longrightarrow>
   (\<forall>q w. length q = n \<and> node_at T q = Some w \<longrightarrow> sound w) \<Longrightarrow> payloads_below n T"
proof (induction n arbitrary: T)
  case 0
  then show ?case by simp
next
  case (Suc n)
  from dicts_above_root [OF Suc.prems(2)] obtain kvs where T: "T = PDict kvs" by (cases T) auto
  have "payloads_below n (snd x)" if x: "x \<in> set kvs" for x
  proof -
    from x Suc.prems(1) T have m: "map_of kvs (fst x) = Some (snd x)" and wf: "well_formed (snd x)"
      by (simp_all add: map_of_distinct_iff list_all_iff)
    from dicts_above_child [OF Suc.prems(2) [unfolded T] m] have da: "dicts_above n (snd x)" .
    have "sound w" if "length q = n \<and> node_at (snd x) q = Some w" for q w
    proof -
      from that m T have "length (fst x # q) = Suc n \<and> node_at T (fst x # q) = Some w" by simp
      with Suc.prems(3) show ?thesis by blast
    qed
    with Suc.IH [OF wf da] show ?thesis by blast
  qed
  with T show ?case by (simp add: list_all_iff)
qed

lemma swop_valid_again:
  assumes wfT: "well_formed T" and pb: "payloads_below (Suc l2) T" and l: "l1 < l2"
    and v: "l2 < length (getPaths T)"
    and inv: "swop_inv T l1 l2 T'"
    and cp: "\<forall>q. length q = Suc l2 \<longrightarrow> node_at T' (swap_path l1 l2 q) = node_at T q"
  shows "well_formed T' \<and> payloads_below (Suc l2) T' \<and> l2 < length (getPaths T')"
proof -
  from inv have wf': "well_formed T'" and da': "dicts_above (Suc l2) T'"
    by (simp_all add: swop_inv_def)
  from pb have daT: "dicts_above (Suc l2) T" by (rule payloads_below_dicts_above)
  have snd': "sound w" if "length q = Suc l2 \<and> node_at T' q = Some w" for q w
  proof -
    from that l have "swap_path l1 l2 (swap_path l1 l2 q) = q" by (simp add: swap_path_twice)
    with cp [rule_format, of "swap_path l1 l2 q"] that
    have "node_at T (swap_path l1 l2 q) = Some w" by simp
    with payloads_below_sound [OF pb, of "swap_path l1 l2 q" w] that show ?thesis by simp
  qed
  from payloads_below_nodes [OF wf' da'] snd' have pb': "payloads_below (Suc l2) T'" by blast
  from getPaths_loop_inhabited [of l2 "[T]"] v daT wfT
  obtain q w where q: "length q = Suc l2" "node_at T q = Some w" by (auto simp: getPaths_def)
  with cp have n': "node_at T' (swap_path l1 l2 q) = Some w" by simp
  have "swap_path l1 l2 q \<noteq> []"
  proof
    assume "swap_path l1 l2 q = []"
    then have "length (swap_path l1 l2 q) = 0" by (simp only: list.size)
    with q(1) show False by simp
  qed
  from getPaths_loop_covers [of T' "[T']" "swap_path l1 l2 q" w, OF _ n' this] da' wf' q(1)
  have "Suc l2 \<le> length (getPaths T')" by (simp add: getPaths_def)
  with wf' pb' show ?thesis by simp
qed

lemma distinct_bindings: "well_formed T \<Longrightarrow> distinct (bindings T)"
proof (induction T rule: bindings.induct)
  case (1 kvs)
  have "distinct (concat (map (\<lambda>x. map (\<lambda>b. (fst x # fst b, snd b)) (bindings (snd x))) ys))"
    if "set ys \<subseteq> set kvs" "distinct (map fst ys)" for ys
    using that
  proof (induction ys)
    case Nil
    then show ?case by simp
  next
    case (Cons y ys)
    from Cons.prems 1 have "distinct (bindings (snd y))" by (auto simp: list_all_iff)
    then have d1: "distinct (map (\<lambda>b. (fst y # fst b, snd b)) (bindings (snd y)))"
      by (auto simp: distinct_map intro!: inj_onI)
    from Cons have d2: "distinct (concat (map (\<lambda>x. map (\<lambda>b. (fst x # fst b, snd b)) (bindings (snd x))) ys))"
      by simp
    have d3: "set (map (\<lambda>b. (fst y # fst b, snd b)) (bindings (snd y))) \<inter>
        set (concat (map (\<lambda>x. map (\<lambda>b. (fst x # fst b, snd b)) (bindings (snd x))) ys)) = {}"
      using Cons.prems(2) by (auto simp: image_iff)
    from d1 d2 d3 show ?case by simp
  qed
  from this [of kvs] 1(2) show ?case by simp
qed simp_all

lemma bindings_iff:
  "well_formed T \<Longrightarrow> (p, x) \<in> set (bindings T) \<longleftrightarrow> node_at T p = Some x \<and> \<not> is_dict x"
proof (induction T arbitrary: p rule: bindings.induct)
  case (1 kvs)
  show ?case
  proof
    assume "(p, x) \<in> set (bindings (PDict kvs))"
    then obtain y b where y: "y \<in> set kvs" and b: "b \<in> set (bindings (snd y))"
      and p: "p = fst y # fst b" "x = snd b" by auto
    from y 1(2) have wf: "well_formed (snd y)" and m: "map_of kvs (fst y) = Some (snd y)"
      by (simp_all add: list_all_iff map_of_distinct_iff)
    from 1(1) [OF y wf, of "fst b"] b p have "node_at (snd y) (fst b) = Some x \<and> \<not> is_dict x" by simp
    with m p show "node_at (PDict kvs) p = Some x \<and> \<not> is_dict x" by simp
  next
    assume a: "node_at (PDict kvs) p = Some x \<and> \<not> is_dict x"
    then obtain k p' where p: "p = k # p'" by (cases p) auto
    with a obtain v where v: "map_of kvs k = Some v" "node_at v p' = Some x"
      by (auto split: option.splits)
    from v(1) have y: "(k, v) \<in> set kvs" by (rule map_of_SomeD)
    with 1(2) have "well_formed v" by (auto simp: list_all_iff)
    from 1(1) [OF y, of p'] this v(2) a have "(p', x) \<in> set (bindings v)" by simp
    with y p show "(p, x) \<in> set (bindings (PDict kvs))" by force
  qed
qed (auto elim: node_at.elims)

lemma bindings_agree:
  assumes wfA: "well_formed A" and wfB: "well_formed B"
    and daA: "dicts_above n A" and daB: "dicts_above n B"
    and eq: "\<forall>q. length q = n \<longrightarrow> node_at A q = node_at B q"
  shows "mset (bindings A) = mset (bindings B)"
proof -
  have one: "node_at B p = Some x \<and> \<not> is_dict x"
    if a: "node_at A p = Some x \<and> \<not> is_dict x"
      and da: "dicts_above n A" and e: "\<forall>q. length q = n \<longrightarrow> node_at A q = node_at B q"
    for A B p x
  proof -
    from a da have "\<not> length p < n" by (auto simp: dicts_above_def)
    then have "p = take n p @ drop n p" "length (take n p) = n" by simp_all
    with e have "node_at A (take n p) = node_at B (take n p)" by blast
    with node_at_append [of A "take n p" "drop n p"] node_at_append [of B "take n p" "drop n p"]
    have "node_at A p = node_at B p" by simp
    with a show ?thesis by simp
  qed
  have "set (bindings A) = set (bindings B)"
  proof (rule set_eqI)
    fix b :: "key list \<times> pyval"
    obtain p x where b: "b = (p, x)" by (cases b)
    from eq have eq': "\<forall>q. length q = n \<longrightarrow> node_at B q = node_at A q" by simp
    have "(node_at A p = Some x \<and> \<not> is_dict x) \<longleftrightarrow> (node_at B p = Some x \<and> \<not> is_dict x)"
    proof
      assume "node_at A p = Some x \<and> \<not> is_dict x"
      from this daA eq show "node_at B p = Some x \<and> \<not> is_dict x" by (rule one)
    next
      assume "node_at B p = Some x \<and> \<not> is_dict x"
      from this daB eq' show "node_at A p = Some x \<and> \<not> is_dict x" by (rule one)
    qed
    with wfA wfB b show "b \<in> set (bindings A) \<longleftrightarrow> b \<in> set (bindings B)"
      by (simp add: bindings_iff)
  qed
  with distinct_bindings [OF wfA] distinct_bindings [OF wfB] show ?thesis
    by (simp add: set_eq_iff_mset_eq_distinct)
qed

lemma swop_symmetric: "i \<noteq> j \<Longrightarrow> swop T i j = swop T (min i j) (max i j)"
  by (auto simp: swop_def Let_def min_def max_def)

lemma swop_module_round_trip:
  assumes wfT: "well_formed T" and pb: "payloads_below (Suc (max i j)) T" and ij: "i \<noteq> j"
    and vi: "i < length (getPaths T)" and vj: "j < length (getPaths T)"
  shows "\<exists>T' T''. swop T i j = Inr T' \<and> swop T' i j = Inr T'' \<and>
     mset (bindings T'') = mset (bindings T)"
proof -
  define l1 where "l1 = min i j"
  define l2 where "l2 = max i j"
  from ij have l: "l1 < l2" by (auto simp: l1_def l2_def)
  from vi vj have v: "l2 < length (getPaths T)" by (simp add: l2_def)
  from pb have pb: "payloads_below (Suc l2) T" by (simp add: l2_def)
  have s: "swop X i j = swop X l1 l2" for X
    unfolding l1_def l2_def using ij by (rule swop_symmetric)
  from swop_once [OF wfT pb l v] obtain T' where
    r1: "swop T l1 l2 = Inr T'" and inv1: "swop_inv T l1 l2 T'"
    and cp1: "\<forall>q. length q = Suc l2 \<longrightarrow> node_at T' (swap_path l1 l2 q) = node_at T q"
    by blast
  from swop_valid_again [OF wfT pb l v inv1 cp1]
  have wf': "well_formed T'" and pb': "payloads_below (Suc l2) T'" and v': "l2 < length (getPaths T')"
    by simp_all
  from swop_once [OF wf' pb' l v'] obtain T'' where
    r2: "swop T' l1 l2 = Inr T''" and inv2: "swop_inv T' l1 l2 T''"
    and cp2: "\<forall>q. length q = Suc l2 \<longrightarrow> node_at T'' (swap_path l1 l2 q) = node_at T' q"
    by blast
  have eq: "node_at T'' q = node_at T q" if lq: "length q = Suc l2" for q
  proof -
    from lq l have tw: "swap_path l1 l2 (swap_path l1 l2 q) = q" by (simp add: swap_path_twice)
    from cp2 [rule_format, of "swap_path l1 l2 q"] lq tw
    have "node_at T'' q = node_at T' (swap_path l1 l2 q)" by simp
    with cp1 lq show ?thesis by simp
  qed
  from inv2 have wf2: "well_formed T''" and da2: "dicts_above (Suc l2) T''"
    by (simp_all add: swop_inv_def)
  from pb have daT: "dicts_above (Suc l2) T" by (rule payloads_below_dicts_above)
  from eq have "\<forall>q. length q = Suc l2 \<longrightarrow> node_at T'' q = node_at T q" by blast
  with wf2 wfT da2 daT have "mset (bindings T'') = mset (bindings T)" by (rule bindings_agree)
  with r1 r2 show ?thesis unfolding s by blast
qed

lemma sweep_sound:
  "list_all sound xs \<Longrightarrow> DataTree_sweep xs = Inr (sweep xs) \<and> list_all sound (snd (sweep xs))"
  by (induction xs rule: sweep.induct) (auto simp: list_all_iff split: prod.splits)

lemma DataTree_getPaths_loop_sound:
  "list_all sound xs \<Longrightarrow> DataTree_getPaths_loop xs = Inr (getPaths_loop xs)"
proof (induction xs rule: getPaths_loop.induct)
  case (1 this_level)
  from sweep_sound [OF "1.prems"] have s: "DataTree_sweep this_level = Inr (sweep this_level)"
    and n: "list_all sound (snd (sweep this_level))" by simp_all
  obtain ks vs where sw: "sweep this_level = (ks, vs)" by (cases "sweep this_level")
  show ?case
  proof (cases "ks = []")
    case True
    then show ?thesis
      by (subst DataTree_getPaths_loop.simps, subst getPaths_loop.simps) (simp add: s sw)
  next
    case False
    with "1.IH" n sw have "DataTree_getPaths_loop vs = Inr (getPaths_loop vs)" by simp
    with False show ?thesis
      by (subst DataTree_getPaths_loop.simps, subst getPaths_loop.simps) (simp add: s sw)
  qed
qed

lemma payloads_below_root_sound: "payloads_below n T \<Longrightarrow> sound T"
  by (induction n T rule: payloads_below.induct) (auto simp: list_all_iff)

lemma DataTree_getPaths_sound: "payloads_below n T \<Longrightarrow> DataTree_getPaths T = Inr (getPaths T)"
  by (simp add: DataTree_getPaths_def getPaths_def DataTree_getPaths_loop_sound
      payloads_below_root_sound)

lemma DataTree_getLeaf_node_at:
  "dicts_above n T \<Longrightarrow> length p \<le> n \<Longrightarrow> DataTree_getLeaf T p = Inr (none_to_PNone (node_at T p))"
proof (induction p arbitrary: T n)
  case Nil
  then show ?case by (simp add: none_to_PNone_def)
next
  case (Cons k p)
  then obtain m where n: "n = Suc m" by (cases n) auto
  with Cons.prems have "is_dict T" by (auto dest: dicts_above_root)
  then obtain kvs where T: "T = PDict kvs" by (cases T) auto
  show ?case
  proof (cases "map_of kvs k")
    case None
    with T show ?thesis by (simp add: none_to_PNone_def)
  next
    case (Some v)
    from dicts_above_child [OF Cons.prems(1) [unfolded n T] Some] have "dicts_above m v" .
    from Cons.IH [OF this] Cons.prems(2) n
    have "DataTree_getLeaf v p = Inr (none_to_PNone (node_at v p))" by simp
    with T Some show ?thesis by simp
  qed
qed

lemma swap_path_append:
  "i < length a \<Longrightarrow> j < length a \<Longrightarrow> swap_path i j (a @ b) = swap_path i j a @ b"
  unfolding swap_path_def by (simp add: list_update_append1 nth_append)

lemma swap_path_eq_iff:
  assumes "i < length a" "j < length a" "length b = length a"
  shows "swap_path i j a = swap_path i j b \<longleftrightarrow> a = b"
proof
  assume "swap_path i j a = swap_path i j b"
  then have e: "swap_path i j (swap_path i j a) = swap_path i j (swap_path i j b)"
    by (rule arg_cong)
  from assms have ta: "swap_path i j (swap_path i j a) = a" by (simp add: swap_path_twice)
  from assms have tb: "swap_path i j (swap_path i j b) = b" by (simp add: swap_path_twice)
  from e show "a = b" unfolding ta tb .
next
  assume "a = b"
  then show "swap_path i j a = swap_path i j b" by (rule arg_cong)
qed

lemma deep_step:
  assumes wfT: "well_formed T" and pb: "payloads_below n T" and l: "l1 < l2" "l2 < n"
    and inv: "deep_inv T l1 l2 n nt" and lq: "length q = n"
  shows "\<exists>nt'.
     (case DataTree_getLeaf T q of
        Inl e \<Rightarrow> Inl e
      | Inr data \<Rightarrow>
          if data = PNone then Inr nt else DataTree_setLeaf nt (swap_path l1 l2 q) data) = Inr nt' \<and>
     deep_inv T l1 l2 n nt' \<and>
     (\<forall>q0. length q0 = n \<and> copied T l1 l2 nt q0 \<longrightarrow> copied T l1 l2 nt' q0) \<and>
     copied T l1 l2 nt' q"
proof -
  from pb have daT: "dicts_above n T" by (rule payloads_below_dicts_above)
  from DataTree_getLeaf_node_at [OF daT] lq
  have gl: "DataTree_getLeaf T q = Inr (none_to_PNone (node_at T q))" by simp
  from inv have wfn: "well_formed nt" and dn: "is_dict nt" and dan: "dicts_above n nt"
    and nodes: "\<forall>q'. length q' = n \<longrightarrow>
        node_at nt q' = None \<or> node_at nt q' = node_at T (swap_path l1 l2 q')"
    by (simp_all add: deep_inv_def)
  from l lq have tw: "swap_path l1 l2 (swap_path l1 l2 q) = q" by (simp add: swap_path_twice)
  let ?p = "swap_path l1 l2 q"
  show ?thesis
  proof (cases "node_at T q")
    case None
    from nodes lq have "node_at nt ?p = None \<or> node_at nt ?p = node_at T (swap_path l1 l2 ?p)"
      by simp
    with None tw have "copied T l1 l2 nt q" by (simp add: copied_def)
    with gl None inv show ?thesis by (simp add: none_to_PNone_def)
  next
    case (Some v)
    from payloads_below_sound [OF pb lq Some] have sv: "sound v" .
    then have vn: "v \<noteq> PNone" by auto
    from well_formed_node [OF wfT Some] have wfv: "well_formed v" .
    from l lq have pne: "?p \<noteq> []" by (auto simp: swap_path_def)
    have ca: "containers_along nt ?p"
    proof (rule containers_along_nodes, intro allI impI)
      fix q' w assume "length q' < length ?p \<and> take (length q') ?p = q' \<and> node_at nt q' = Some w"
      with dan lq show "is_dict w" by (auto simp: dicts_above_def)
    qed
    let ?nt = "put_path nt ?p v"
    from l lq have "length ?p \<noteq> 0" by simp
    with setLeaf_put_path [OF pne ca]
    have s: "DataTree_setLeaf nt ?p v = Inr ?nt" by (simp only: DataTree_setLeaf_def if_False)
    from wfn wfv have wf': "well_formed ?nt" by (rule well_formed_put_path)
    from dn pne have d': "is_dict ?nt" by (rule put_path_is_dict)
    from dicts_above_put_path [OF dan ca] lq have da': "dicts_above n ?nt" by simp
    have here: "node_at ?nt ?p = Some v" using node_at_put_path [OF ca, of v "[]"] by simp
    have other: "node_at ?nt q' = node_at nt q'" if "length q' = n" "q' \<noteq> ?p" for q'
      using that lq by (intro node_at_put_path_other [OF ca]) auto
    have nodes': "node_at ?nt q' = None \<or> node_at ?nt q' = node_at T (swap_path l1 l2 q')"
      if lq': "length q' = n" for q'
    proof (cases "q' = ?p")
      case True
      with here Some tw show ?thesis by simp
    next
      case False
      with other [OF lq'] nodes lq' show ?thesis by simp
    qed
    have mono: "copied T l1 l2 ?nt q0" if q0: "length q0 = n" "copied T l1 l2 nt q0" for q0
    proof (cases "swap_path l1 l2 q0 = ?p")
      case True
      with swap_path_eq_iff [of l1 q0 l2 q] l lq q0(1) have "q0 = q" by simp
      with here Some show ?thesis by (simp add: copied_def)
    next
      case False
      with other [of "swap_path l1 l2 q0"] q0 show ?thesis by (simp add: copied_def)
    qed
    from here Some have "copied T l1 l2 ?nt q" by (simp add: copied_def)
    with gl Some vn s wf' d' da' nodes' mono show ?thesis
      by (simp add: none_to_PNone_def deep_inv_def)
  qed
qed


lemma swop_f_combo3:
  "swop_f (o1 @ [Some a] @ o2 @ [Some b] @ o3) = swop_f o1 @ [a] @ swop_f o2 @ [b] @ swop_f o3"
  by (simp add: swop_f_def map_filter_def)

lemma swap_path_combo3:
  assumes "length pre = l1" "length mid = l2 - Suc l1" "l1 < l2"
  shows "swap_path l1 l2 (pre @ [p1] @ mid @ [p2] @ suf) = pre @ [p2] @ mid @ [p1] @ suf"
proof -
  have "swap_path l1 l2 ((pre @ [p1] @ mid @ [p2]) @ suf) =
      swap_path l1 l2 (pre @ [p1] @ mid @ [p2]) @ suf"
    using assms by (intro swap_path_append) auto
  with swap_path_concat [OF assms, of p1 p2] show ?thesis by simp
qed

lemma DataTree_swop_inner_copied:
  assumes wfT: "well_formed T" and pb: "payloads_below n T" and l: "l1 < l2" "l2 < n"
  shows "\<forall>x \<in> set pis. length (swop_f (fst x)) = l1 \<and> length (swop_f (fst (snd x))) = l2 - Suc l1 \<and>
       length (swop_f (snd (snd x))) = n - Suc l2 \<Longrightarrow>
     deep_inv T l1 l2 n nt \<Longrightarrow>
     \<exists>nt'. DataTree_swop_inner T p1 p2 pis nt = Inr nt' \<and> deep_inv T l1 l2 n nt' \<and>
       (\<forall>q0. length q0 = n \<and> copied T l1 l2 nt q0 \<longrightarrow> copied T l1 l2 nt' q0) \<and>
       (\<forall>x \<in> set pis. copied T l1 l2 nt'
          (swop_f (fst x @ [Some p1] @ fst (snd x) @ [Some p2] @ snd (snd x))))"
proof (induction pis arbitrary: nt)
  case Nil
  then show ?case by simp
next
  case (Cons x pis)
  obtain prefix infx suffix where x: "x = (prefix, infx, suffix)" by (cases x)
  from Cons.prems(1) x have lx: "length (swop_f prefix) = l1" "length (swop_f infx) = l2 - Suc l1"
      "length (swop_f suffix) = n - Suc l2"
    and rest: "\<forall>x \<in> set pis. length (swop_f (fst x)) = l1 \<and>
       length (swop_f (fst (snd x))) = l2 - Suc l1 \<and> length (swop_f (snd (snd x))) = n - Suc l2"
    by auto
  define q where "q = swop_f (prefix @ [Some p1] @ infx @ [Some p2] @ suffix)"
  have qe: "q = swop_f prefix @ [p1] @ swop_f infx @ [p2] @ swop_f suffix"
    unfolding q_def by (rule swop_f_combo3)
  have lq: "length q = n" using lx l by (simp add: qe)
  have np: "swop_f (prefix @ [Some p2] @ infx @ [Some p1] @ suffix) = swap_path l1 l2 q"
    unfolding qe swop_f_combo3 using swap_path_combo3 [OF lx(1,2) l(1), of p1 p2 "swop_f suffix"]
    by (rule sym)
  from deep_step [OF wfT pb l Cons.prems(2) lq] obtain nt1 where
    s: "(case DataTree_getLeaf T q of
        Inl e \<Rightarrow> Inl e
      | Inr data \<Rightarrow>
          if data = PNone then Inr nt else DataTree_setLeaf nt (swap_path l1 l2 q) data) = Inr nt1"
    and inv1: "deep_inv T l1 l2 n nt1"
    and mono1: "\<forall>q0. length q0 = n \<and> copied T l1 l2 nt q0 \<longrightarrow> copied T l1 l2 nt1 q0"
    and here1: "copied T l1 l2 nt1 q"
    by blast
  have step: "DataTree_swop_inner T p1 p2 ((prefix, infx, suffix) # pis) nt =
      DataTree_swop_inner T p1 p2 pis nt1"
    unfolding DataTree_swop_inner.simps Let_def np q_def [symmetric]
    using s by (auto split: sum.splits if_splits)
  from Cons.IH [OF rest inv1] obtain nt' where
    r: "DataTree_swop_inner T p1 p2 pis nt1 = Inr nt'" and inv': "deep_inv T l1 l2 n nt'"
    and mono: "\<forall>q0. length q0 = n \<and> copied T l1 l2 nt1 q0 \<longrightarrow> copied T l1 l2 nt' q0"
    and all: "\<forall>x \<in> set pis. copied T l1 l2 nt'
          (swop_f (fst x @ [Some p1] @ fst (snd x) @ [Some p2] @ snd (snd x)))"
    by blast
  from here1 mono lq have hq: "copied T l1 l2 nt' q" by blast
  have all': "\<forall>y \<in> set (x # pis). copied T l1 l2 nt'
          (swop_f (fst y @ [Some p1] @ fst (snd y) @ [Some p2] @ snd (snd y)))"
  proof
    fix y assume "y \<in> set (x # pis)"
    then consider "y = x" | "y \<in> set pis" by auto
    then show "copied T l1 l2 nt'
          (swop_f (fst y @ [Some p1] @ fst (snd y) @ [Some p2] @ snd (snd y)))"
    proof cases
      case 1
      with hq show ?thesis unfolding q_def x by (simp only: fst_conv snd_conv)
    next
      case 2
      with all show ?thesis by (rule bspec)
    qed
  qed
  from step r x have "DataTree_swop_inner T p1 p2 (x # pis) nt = Inr nt'" by simp
  with inv' mono mono1 all' show ?case by blast
qed

lemma DataTree_swop_outer_copied:
  assumes wfT: "well_formed T" and pb: "payloads_below n T" and l: "l1 < l2" "l2 < n"
    and pis: "\<forall>x \<in> set pis. length (swop_f (fst x)) = l1 \<and>
       length (swop_f (fst (snd x))) = l2 - Suc l1 \<and> length (swop_f (snd (snd x))) = n - Suc l2"
  shows "deep_inv T l1 l2 n nt \<Longrightarrow>
     \<exists>nt'. DataTree_swop_outer T pps pis nt = Inr nt' \<and> deep_inv T l1 l2 n nt' \<and>
       (\<forall>q0. length q0 = n \<and> copied T l1 l2 nt q0 \<longrightarrow> copied T l1 l2 nt' q0) \<and>
       (\<forall>pp \<in> set pps. \<forall>x \<in> set pis. copied T l1 l2 nt'
          (swop_f (fst x @ [Some (fst pp)] @ fst (snd x) @ [Some (snd pp)] @ snd (snd x))))"
proof (induction pps arbitrary: nt)
  case Nil
  then show ?case by simp
next
  case (Cons pp pps)
  obtain p1 p2 where pp: "pp = (p1, p2)" by (cases pp)
  from DataTree_swop_inner_copied [OF wfT pb l pis Cons.prems, of p1 p2] obtain nt1 where
    s: "DataTree_swop_inner T p1 p2 pis nt = Inr nt1" and inv1: "deep_inv T l1 l2 n nt1"
    and mono1: "\<forall>q0. length q0 = n \<and> copied T l1 l2 nt q0 \<longrightarrow> copied T l1 l2 nt1 q0"
    and all1: "\<forall>x \<in> set pis. copied T l1 l2 nt1
          (swop_f (fst x @ [Some p1] @ fst (snd x) @ [Some p2] @ snd (snd x)))"
    by blast
  from Cons.IH [OF inv1] obtain nt' where
    r: "DataTree_swop_outer T pps pis nt1 = Inr nt'" and inv': "deep_inv T l1 l2 n nt'"
    and mono: "\<forall>q0. length q0 = n \<and> copied T l1 l2 nt1 q0 \<longrightarrow> copied T l1 l2 nt' q0"
    and all: "\<forall>pp \<in> set pps. \<forall>x \<in> set pis. copied T l1 l2 nt'
          (swop_f (fst x @ [Some (fst pp)] @ fst (snd x) @ [Some (snd pp)] @ snd (snd x)))"
    by blast
  have lq: "length (swop_f (fst x @ [Some p1] @ fst (snd x) @ [Some p2] @ snd (snd x))) = n"
    if "x \<in> set pis" for x
    using that pis l by (simp add: swop_f_def map_filter_def)
  have here: "\<forall>x \<in> set pis. copied T l1 l2 nt'
      (swop_f (fst x @ [Some p1] @ fst (snd x) @ [Some p2] @ snd (snd x)))"
    using all1 mono lq by blast
  have "DataTree_swop_outer T (pp # pps) pis nt = Inr nt'" using s r pp by simp
  with inv' mono mono1 all here pp show ?case by auto
qed

lemma deep_inv_empty: "0 < n \<Longrightarrow> deep_inv T l1 l2 n (PDict [])"
proof -
  assume n: "0 < n"
  have "node_at (PDict []) q = None" if "length q = n" for q using that n by (cases q) auto
  moreover have "is_dict v" if "node_at (PDict []) p = Some v" for p v
    using that by (cases p) auto
  ultimately show ?thesis unfolding deep_inv_def dicts_above_def by simp blast
qed

lemma path_split3:
  assumes "length q = n" and "l1 < l2" and "l2 < n"
  shows "q = take l1 q @ [q ! l1] @ drop (Suc l1) (take l2 q) @ [q ! l2] @ drop (Suc l2) q"
proof -
  let ?h = "take (Suc l2) q"
  from assms have lh: "length ?h = Suc l2" by simp
  from path_split [OF lh assms(2)] assms
  have "?h = take l1 q @ [q ! l1] @ drop (Suc l1) (take l2 q) @ [q ! l2]"
    by (simp add: min_def)
  moreover have "q = ?h @ drop (Suc l2) q" by simp
  ultimately show ?thesis by (metis append.assoc)
qed


lemma DataTree_swop_once:
  assumes wfT: "well_formed T" and pb: "payloads_below (length (getPaths T)) T" and l: "l1 < l2"
    and v: "l2 < length (getPaths T)"
  shows "\<exists>T'. DataTree_swop T l1 l2 = Inr T' \<and> deep_inv T l1 l2 (length (getPaths T)) T' \<and>
     (\<forall>q. length q = length (getPaths T) \<longrightarrow> node_at T' (swap_path l1 l2 q) = node_at T q)"
proof -
  define paths where "paths = getPaths T"
  define n where "n = length paths"
  define pps where "pps = List.product (paths ! l1) (paths ! l2)"
  define pis where "pis = List.product (swop_product (take l1 paths))
      (List.product (swop_product (drop (l1 + 1) (take l2 paths)))
         (swop_product (drop (l2 + 1) paths)))"
  from pb have pbn: "payloads_below n T" by (simp add: n_def paths_def)
  from v have vn: "l2 < n" by (simp add: n_def paths_def)
  from DataTree_getPaths_sound [OF pb] have gp: "DataTree_getPaths T = Inr paths"
    by (simp add: paths_def)
  have sw: "DataTree_swop T l1 l2 = DataTree_swop_outer T pps pis (PDict [])"
    using l vn by (simp add: DataTree_swop_def gp Let_def pps_def pis_def n_def)
  have lens: "\<forall>x \<in> set pis. length (swop_f (fst x)) = l1 \<and>
       length (swop_f (fst (snd x))) = l2 - Suc l1 \<and> length (swop_f (snd (snd x))) = n - Suc l2"
  proof
    fix x assume "x \<in> set pis"
    then have "fst x \<in> set (swop_product (take l1 paths))"
      "fst (snd x) \<in> set (swop_product (drop (l1 + 1) (take l2 paths)))"
      "snd (snd x) \<in> set (swop_product (drop (l2 + 1) paths))"
      by (auto simp: pis_def)
    from this [THEN swop_product_length] l vn
    show "length (swop_f (fst x)) = l1 \<and>
       length (swop_f (fst (snd x))) = l2 - Suc l1 \<and> length (swop_f (snd (snd x))) = n - Suc l2"
      by (simp add: n_def)
  qed
  from vn have n0: "0 < n" by simp
  from DataTree_swop_outer_copied [OF wfT pbn l vn lens deep_inv_empty [OF n0], of pps] obtain T' where
    r: "DataTree_swop_outer T pps pis (PDict []) = Inr T'" and inv: "deep_inv T l1 l2 n T'"
    and all: "\<forall>pp \<in> set pps. \<forall>x \<in> set pis. copied T l1 l2 T'
          (swop_f (fst x @ [Some (fst pp)] @ fst (snd x) @ [Some (snd pp)] @ snd (snd x)))"
    by blast
  from pbn have daT: "dicts_above n T" by (rule payloads_below_dicts_above)
  have "node_at T' (swap_path l1 l2 q) = node_at T q" if lq: "length q = n" for q
  proof (cases "node_at T q")
    case None
    from inv lq have "node_at T' (swap_path l1 l2 q) = None \<or>
        node_at T' (swap_path l1 l2 q) = node_at T (swap_path l1 l2 (swap_path l1 l2 q))"
      by (simp add: deep_inv_def)
    with None lq l vn show ?thesis by (simp add: swap_path_twice)
  next
    case (Some w)
    from lq n0 have qne: "q \<noteq> []" by auto
    from getPaths_loop_covers [of T "[T]" q w] Some qne daT wfT lq
    have cov: "\<forall>k < n. q ! k \<in> set (paths ! k)"
      by (simp add: paths_def getPaths_def)
    define pre where "pre = take l1 q"
    define mid where "mid = drop (Suc l1) (take l2 q)"
    define suf where "suf = drop (Suc l2) q"
    from path_split3 [OF lq l vn] have qs: "q = pre @ [q ! l1] @ mid @ [q ! l2] @ suf"
      by (simp add: pre_def mid_def suf_def)
    have "\<exists>opt \<in> set (swop_product (take l1 paths)). swop_f opt = pre"
    proof (rule in_swop_product)
      show "length pre = length (take l1 paths)" using lq l vn by (simp add: pre_def n_def)
      show "\<forall>i < length (take l1 paths). pre ! i \<in> set (take l1 paths ! i)"
        using cov l vn by (simp add: pre_def)
    qed
    then obtain o1 where o1: "o1 \<in> set (swop_product (take l1 paths))" "swop_f o1 = pre" by blast
    have "\<exists>opt \<in> set (swop_product (drop (l1 + 1) (take l2 paths))). swop_f opt = mid"
    proof (rule in_swop_product)
      show "length mid = length (drop (l1 + 1) (take l2 paths))"
        using lq l vn by (simp add: mid_def n_def)
      show "\<forall>i < length (drop (l1 + 1) (take l2 paths)). mid ! i \<in> set (drop (l1 + 1) (take l2 paths) ! i)"
        using cov l lq vn by (simp add: mid_def n_def)
    qed
    then obtain o2 where o2: "o2 \<in> set (swop_product (drop (l1 + 1) (take l2 paths)))" "swop_f o2 = mid"
      by blast
    have "\<exists>opt \<in> set (swop_product (drop (l2 + 1) paths)). swop_f opt = suf"
    proof (rule in_swop_product)
      show "length suf = length (drop (l2 + 1) paths)"
        using lq l vn by (simp add: suf_def n_def)
      show "\<forall>i < length (drop (l2 + 1) paths). suf ! i \<in> set (drop (l2 + 1) paths ! i)"
        using cov l lq vn by (simp add: suf_def n_def)
    qed
    then obtain o3 where o3: "o3 \<in> set (swop_product (drop (l2 + 1) paths))" "swop_f o3 = suf"
      by blast
    from cov l vn have m1: "(q ! l1, q ! l2) \<in> set pps" by (simp add: pps_def)
    from o1 o2 o3 have m2: "(o1, o2, o3) \<in> set pis" by (simp add: pis_def)
    from all m1 have "\<forall>x \<in> set pis. copied T l1 l2 T'
        (swop_f (fst x @ [Some (fst (q ! l1, q ! l2))] @ fst (snd x) @
           [Some (snd (q ! l1, q ! l2))] @ snd (snd x)))"
      by (rule bspec)
    from this m2 have "copied T l1 l2 T'
        (swop_f (fst (o1, o2, o3) @ [Some (fst (q ! l1, q ! l2))] @ fst (snd (o1, o2, o3)) @
           [Some (snd (q ! l1, q ! l2))] @ snd (snd (o1, o2, o3))))"
      by (rule bspec)
    then have "copied T l1 l2 T' (swop_f (o1 @ [Some (q ! l1)] @ o2 @ [Some (q ! l2)] @ o3))"
      by (simp only: fst_conv snd_conv)
    moreover have "swop_f (o1 @ [Some (q ! l1)] @ o2 @ [Some (q ! l2)] @ o3) = q"
      unfolding swop_f_combo3 o1(2) o2(2) o3(2) using qs by simp
    ultimately show ?thesis by (simp add: copied_def)
  qed
  then have cp: "\<forall>q. length q = n \<longrightarrow> node_at T' (swap_path l1 l2 q) = node_at T q"
    by blast
  from sw r have "DataTree_swop T l1 l2 = Inr T'" by simp
  with inv cp show ?thesis unfolding n_def paths_def by blast
qed

lemma sweep_keys:
  "list_all sound xs \<Longrightarrow> fst (sweep xs) = concat (map (\<lambda>x. map fst (items_of (Some x))) xs)"
  by (induction xs rule: sweep.induct) (auto simp: items_of_def)

lemma payloads_below_level_values:
  assumes "list_all (payloads_below (Suc n)) xs"
  shows "list_all (payloads_below n) (level_values xs)"
proof -
  have "payloads_below n v" if "v \<in> set (level_values xs)" for v
  proof -
    from that obtain y kvs kv where y: "y \<in> set xs" "y = PDict kvs" "kv \<in> set kvs" "v = snd kv"
      by (auto simp: level_values_def split: pyval.splits)
    from y(1) assms have "payloads_below (Suc n) y" unfolding list_all_iff by blast
    with y(2,3,4) show ?thesis by (simp add: list_all_iff)
  qed
  then show ?thesis unfolding list_all_iff by blast
qed

lemma getPaths_loop_length_le:
  "list_all (payloads_below n) xs \<Longrightarrow> list_all well_formed xs \<Longrightarrow>
   length (getPaths_loop xs) \<le> n \<longleftrightarrow>
     (\<forall>x \<in> set xs. \<forall>q w. length q = n \<and> node_at x q = Some w \<longrightarrow> items_of (Some w) = [])"
proof (induction n arbitrary: xs)
  case 0
  then have snd: "list_all sound xs" by (simp add: list_all_iff)
  have "length (getPaths_loop xs) \<le> 0 \<longleftrightarrow> fst (sweep xs) = []"
    by (subst getPaths_loop.simps) simp
  also have "\<dots> \<longleftrightarrow> (\<forall>x \<in> set xs. items_of (Some x) = [])"
    by (simp add: sweep_keys [OF snd])
  finally show ?case by simp
next
  case (Suc n)
  have da: "list_all (dicts_above (Suc n)) xs"
    using Suc.prems(1) unfolding list_all_iff by (blast intro: payloads_below_dicts_above)
  from all_dicts [OF da] have dicts: "list_all is_dict xs" .
  from sweep_level [OF dicts] have sw: "sweep xs = (level_keys xs, level_values xs)" .
  from payloads_below_level_values [OF Suc.prems(1)]
  have pv: "list_all (payloads_below n) (level_values xs)" .
  from level_values_props(2) [OF da Suc.prems(2)] have wv: "list_all well_formed (level_values xs)" .
  note IH = Suc.IH [OF pv wv]
  have nodes: "(\<forall>x \<in> set xs. \<forall>q w. length q = Suc n \<and> node_at x q = Some w \<longrightarrow> items_of (Some w) = []) \<longleftrightarrow>
      (\<forall>v \<in> set (level_values xs). \<forall>q w. length q = n \<and> node_at v q = Some w \<longrightarrow> items_of (Some w) = [])"
  proof (intro iffI ballI allI impI)
    fix v q w
    assume a: "\<forall>x \<in> set xs. \<forall>q w. length q = Suc n \<and> node_at x q = Some w \<longrightarrow> items_of (Some w) = []"
      and v: "v \<in> set (level_values xs)" and q: "length q = n \<and> node_at v q = Some w"
    from v obtain y kvs kv where y: "y \<in> set xs" "y = PDict kvs" "kv \<in> set kvs" "v = snd kv"
      by (auto simp: level_values_def split: pyval.splits)
    from y(1) Suc.prems(2) have "well_formed y" unfolding list_all_iff by blast
    with y(2,3) have "map_of kvs (fst kv) = Some (snd kv)" by (simp add: map_of_distinct_iff)
    with q y have "length (fst kv # q) = Suc n \<and> node_at y (fst kv # q) = Some w" by simp
    with a y(1) show "items_of (Some w) = []" by blast
  next
    fix x q w
    assume a: "\<forall>v \<in> set (level_values xs). \<forall>q w. length q = n \<and> node_at v q = Some w \<longrightarrow>
        items_of (Some w) = []"
      and x: "x \<in> set xs" and q: "length q = Suc n \<and> node_at x q = Some w"
    from dicts x obtain kvs where xd: "x = PDict kvs" by (cases x) (auto simp: list_all_iff)
    from q obtain k q' where qk: "q = k # q'" "length q' = n" by (cases q) auto
    with q xd obtain v where vv: "map_of kvs k = Some v" "node_at v q' = Some w"
      by (auto split: option.splits)
    from vv(1) have "(k, v) \<in> set kvs" by (rule map_of_SomeD)
    with x xd have "v \<in> set (level_values xs)"
      unfolding level_values_def by (force split: pyval.splits)
    with a qk(2) vv(2) show "items_of (Some w) = []" by blast
  qed
  show ?case
  proof (cases "level_keys xs = []")
    case True
    then have g: "getPaths_loop xs = []" by (subst getPaths_loop.simps) (simp add: sw)
    have "level_values xs = []"
    proof -
      have "kvs = []" if "PDict kvs \<in> set xs" for kvs
        using True that by (force simp: level_keys_def)
      then show ?thesis by (auto simp: level_values_def split: pyval.splits)
    qed
    with g nodes show ?thesis by simp
  next
    case False
    have gp: "getPaths_loop xs = unique (level_keys xs) # getPaths_loop (level_values xs)"
      by (subst getPaths_loop.simps) (simp only: sw fst_conv snd_conv False if_False)
    with IH nodes show ?thesis by simp
  qed
qed

lemma DataTree_swop_valid_again:
  assumes wfT: "well_formed T" and pb: "payloads_below (length (getPaths T)) T" and l: "l1 < l2"
    and v: "l2 < length (getPaths T)"
    and inv: "deep_inv T l1 l2 (length (getPaths T)) T'"
    and cp: "\<forall>q. length q = length (getPaths T) \<longrightarrow> node_at T' (swap_path l1 l2 q) = node_at T q"
  shows "well_formed T' \<and> length (getPaths T') = length (getPaths T) \<and>
    payloads_below (length (getPaths T')) T'"
proof -
  define n where "n = length (getPaths T)"
  note pb = pb [folded n_def] and v = v [folded n_def] and inv = inv [folded n_def]
    and cp = cp [folded n_def]
  from inv have wf': "well_formed T'" and da': "dicts_above n T'"
    by (simp_all add: deep_inv_def)
  from pb have daT: "dicts_above n T" by (rule payloads_below_dicts_above)
  have bk: "node_at T (swap_path l1 l2 q) = node_at T' q" if "length q = n" for q
  proof -
    from that l v have "swap_path l1 l2 (swap_path l1 l2 q) = q" by (simp add: swap_path_twice)
    with cp [rule_format, of "swap_path l1 l2 q"] that show ?thesis by simp
  qed
  have snd': "sound w" if "length q = n \<and> node_at T' q = Some w" for q w
    using payloads_below_sound [OF pb, of "swap_path l1 l2 q" w] bk [of q] that by simp
  from payloads_below_nodes [OF wf' da'] snd' have pb': "payloads_below n T'" by blast
  from getPaths_loop_length_le [of n "[T]"] pb wfT
  have kT: "\<forall>q w. length q = n \<and> node_at T q = Some w \<longrightarrow> items_of (Some w) = []"
    by (simp add: getPaths_def n_def)
  have "\<forall>q w. length q = n \<and> node_at T' q = Some w \<longrightarrow> items_of (Some w) = []"
  proof (intro allI impI)
    fix q w assume a: "length q = n \<and> node_at T' q = Some w"
    with bk [of q] have "length (swap_path l1 l2 q) = n \<and> node_at T (swap_path l1 l2 q) = Some w"
      by simp
    with kT show "items_of (Some w) = []" by blast
  qed
  with getPaths_loop_length_le [of n "[T']"] pb' wf'
  have le: "length (getPaths T') \<le> n" by (simp add: getPaths_def)
  from v obtain k where k: "n = Suc k" by (cases n) auto
  from getPaths_loop_inhabited [of k "[T]"] daT wfT k
  obtain q w where q: "length q = n" "node_at T q = Some w" by (auto simp: getPaths_def n_def)
  with cp have n': "node_at T' (swap_path l1 l2 q) = Some w" by simp
  have "swap_path l1 l2 q \<noteq> []"
  proof
    assume "swap_path l1 l2 q = []"
    then have "length (swap_path l1 l2 q) = 0" by (simp only: list.size)
    with q(1) k show False by simp
  qed
  from getPaths_loop_covers [of T' "[T']" "swap_path l1 l2 q" w, OF _ n' this] da' wf' q(1)
  have "n \<le> length (getPaths T')" by (simp add: getPaths_def)
  with le have "length (getPaths T') = n" by simp
  with wf' pb' show ?thesis by (simp add: n_def)
qed

lemma DataTree_swop_symmetric:
  "i \<noteq> j \<Longrightarrow> DataTree_swop T i j = DataTree_swop T (min i j) (max i j)"
  by (auto simp: DataTree_swop_def Let_def min_def max_def split: sum.splits)

lemma DataTree_round_trip:
  assumes wfT: "well_formed T" and pb: "payloads_below (length (getPaths T)) T" and ij: "i \<noteq> j"
    and vi: "i < length (getPaths T)" and vj: "j < length (getPaths T)"
  shows "\<exists>T' T''. DataTree_swop T i j = Inr T' \<and> DataTree_swop T' i j = Inr T'' \<and>
     mset (bindings T'') = mset (bindings T)"
proof -
  define l1 where "l1 = min i j"
  define l2 where "l2 = max i j"
  define n where "n = length (getPaths T)"
  from ij have l: "l1 < l2" by (auto simp: l1_def l2_def)
  from vi vj have v: "l2 < length (getPaths T)" by (simp add: l2_def)
  have s: "DataTree_swop X i j = DataTree_swop X l1 l2" for X
    unfolding l1_def l2_def using ij by (rule DataTree_swop_symmetric)
  from DataTree_swop_once [OF wfT pb l v] obtain T' where
    r1: "DataTree_swop T l1 l2 = Inr T'" and inv1: "deep_inv T l1 l2 (length (getPaths T)) T'"
    and cp1: "\<forall>q. length q = length (getPaths T) \<longrightarrow> node_at T' (swap_path l1 l2 q) = node_at T q"
    by blast
  note va = DataTree_swop_valid_again [OF wfT pb l v inv1 cp1]
  from va have wf': "well_formed T'" by (rule conjunct1)
  from va have n': "length (getPaths T') = length (getPaths T)" by (rule conjunct2 [THEN conjunct1])
  from va have pb': "payloads_below (length (getPaths T')) T'" by (rule conjunct2 [THEN conjunct2])
  from v n' have v': "l2 < length (getPaths T')" by simp
  from DataTree_swop_once [OF wf' pb' l v'] obtain T'' where
    r2: "DataTree_swop T' l1 l2 = Inr T''" and inv2: "deep_inv T' l1 l2 (length (getPaths T')) T''"
    and cp2: "\<forall>q. length q = length (getPaths T') \<longrightarrow> node_at T'' (swap_path l1 l2 q) = node_at T' q"
    by blast
  have eq: "node_at T'' q = node_at T q" if lq: "length q = n" for q
  proof -
    from lq l v have tw: "swap_path l1 l2 (swap_path l1 l2 q) = q"
      by (simp add: swap_path_twice n_def)
    from cp2 [rule_format, of "swap_path l1 l2 q"] lq tw n'
    have "node_at T'' q = node_at T' (swap_path l1 l2 q)" by (simp add: n_def)
    with cp1 lq show ?thesis by (simp add: n_def)
  qed
  from inv2 n' have wf2: "well_formed T''" and da2: "dicts_above n T''"
    by (simp_all add: deep_inv_def n_def)
  from pb have daT: "dicts_above n T" unfolding n_def by (rule payloads_below_dicts_above)
  from eq have "\<forall>q. length q = n \<longrightarrow> node_at T'' q = node_at T q" by blast
  with wf2 wfT da2 daT have "mset (bindings T'') = mset (bindings T)" by (rule bindings_agree)
  with r1 r2 show ?thesis unfolding s by blast
qed

text \<open>
  C2, amended: let the keys of every dictionary of the tree be distinct and let \<open>i\<close> and \<open>j\<close>
  be two distinct levels of the tree. If every payload stands below both levels, none of
  them \<^verbatim>\<open>None\<close> or a tabular object, then \<^verbatim>\<open>swop\<close> returns a tree, \<^verbatim>\<open>swop\<close> of that tree with
  the same levels returns a tree, and the bindings of the last tree are, as a multiset,
  those of the first. If every payload stands at the full depth of the tree, below its
  last level, the same holds of \<^verbatim>\<open>DataTree.swop\<close>. No condition on the keys of the two
  levels is needed.
\<close>

theorem swop_round_trip:
  assumes wfT: "well_formed T" and ij: "i \<noteq> j"
    and vi: "i < length (getPaths T)" and vj: "j < length (getPaths T)"
  shows "(payloads_below (Suc (max i j)) T \<longrightarrow>
           (\<exists>T' T''. swop T i j = Inr T' \<and> swop T' i j = Inr T'' \<and>
              mset (bindings T'') = mset (bindings T))) \<and>
         (payloads_below (length (getPaths T)) T \<longrightarrow>
           (\<exists>T' T''. DataTree_swop T i j = Inr T' \<and> DataTree_swop T' i j = Inr T'' \<and>
              mset (bindings T'') = mset (bindings T)))"
proof (intro conjI impI)
  assume "payloads_below (Suc (max i j)) T"
  with wfT show "\<exists>T' T''. swop T i j = Inr T' \<and> swop T' i j = Inr T'' \<and>
      mset (bindings T'') = mset (bindings T)"
    using ij vi vj by (rule swop_module_round_trip)
next
  assume "payloads_below (length (getPaths T)) T"
  with wfT show "\<exists>T' T''. DataTree_swop T i j = Inr T' \<and> DataTree_swop T' i j = Inr T'' \<and>
      mset (bindings T'') = mset (bindings T)"
    using ij vi vj by (rule DataTree_round_trip)
qed

lemma getPaths_two_by_two:
  "getPaths two_by_two = [[KStr ''a'', KStr ''b''], [KStr ''x'', KStr ''y'']]"
  unfolding two_by_two_def by code_simp

text \<open>The round trip on the tree \<^verbatim>\<open>{"a": {"x": 1, "y": 2}, "b": {"x": 3, "y": 4}}\<close>.\<close>

theorem swop_round_trip_witness:
  "(\<exists>T' T''. swop two_by_two 0 1 = Inr T' \<and> swop T' 0 1 = Inr T'' \<and>
      mset (bindings T'') = mset (bindings two_by_two)) \<and>
   (\<exists>T' T''. DataTree_swop two_by_two 0 1 = Inr T' \<and> DataTree_swop T' 0 1 = Inr T'' \<and>
      mset (bindings T'') = mset (bindings two_by_two))"
proof -
  have "well_formed two_by_two" by (simp add: two_by_two_def)
  moreover have "payloads_below (Suc (max 0 1)) two_by_two" by (simp add: two_by_two_def)
  moreover have "payloads_below (length (getPaths two_by_two)) two_by_two"
    by (simp add: getPaths_two_by_two) (simp add: two_by_two_def)
  moreover have "0 < length (getPaths two_by_two)" "1 < length (getPaths two_by_two)"
    by (simp_all add: getPaths_two_by_two)
  ultimately show ?thesis using swop_round_trip [of two_by_two 0 1] by simp
qed

text \<open>
  C2 as stated, for every tree, fails where a payload stands above the deeper level: in
  \<^verbatim>\<open>{"a": {"x": 1}, "b": 5}\<close> the levels \<open>0\<close> and \<open>1\<close> have no key in common, \<^verbatim>\<open>getLeaf\<close> returns
  \<^verbatim>\<open>None\<close> for the path \<^verbatim>\<open>("b", "x")\<close>, and \<^verbatim>\<open>swop\<close> skips it: the first \<^verbatim>\<open>swop\<close> returns
  \<^verbatim>\<open>{"x": {"a": 1}}\<close>, the second \<^verbatim>\<open>{"a": {"x": 1}}\<close>, and the binding of \<^verbatim>\<open>("b",)\<close> to \<^verbatim>\<open>5\<close> is
  lost. On the same tree \<^verbatim>\<open>DataTree.swop\<close> raises \<^verbatim>\<open>TypeError\<close>, since \<^verbatim>\<open>DataTree.getLeaf\<close>
  subscripts the payload \<^verbatim>\<open>5\<close>; and it raises \<^verbatim>\<open>TypeError\<close> on
  \<^verbatim>\<open>{"a": {"x": 1}, "b": {"x": {"p": 2}}}\<close>, where every payload stands below the levels
  \<open>0\<close> and \<open>1\<close> and one of them above the last level.
\<close>

theorem swop_drops_shallow_payload:
  "swop ragged 0 1 = Inr (PDict [(KStr ''x'', PDict [(KStr ''a'', PInt 1)])]) \<and>
   swop (PDict [(KStr ''x'', PDict [(KStr ''a'', PInt 1)])]) 0 1 =
     Inr (PDict [(KStr ''a'', PDict [(KStr ''x'', PInt 1)])]) \<and>
   mset (bindings (PDict [(KStr ''a'', PDict [(KStr ''x'', PInt 1)])])) \<noteq> mset (bindings ragged) \<and>
   DataTree_swop ragged 0 1 = Inl TypeError \<and>
   DataTree_swop uneven 0 1 = Inl TypeError"
  unfolding ragged_def uneven_def by code_simp

subsection \<open>The collapse of a level\<close>

lemma prune_keep_False:
  "prune_keep data label prefixes = Inr False \<longleftrightarrow>
     (\<forall>prefix \<in> set prefixes. \<exists>leaves. getLeaf data prefix = Inr leaves \<and>
         (leaves = PNone \<or> sole_key leaves label))"
  by (induction prefixes) (auto simp: sole_key_def split: sum.splits)

lemma prune_levels_eq:
  "prune_levels data data_paths ignore levels acc = Inr res \<Longrightarrow>
   res = acc @ map (\<lambda>l. (l, data_paths ! l ! 0)) (filter (prunable data data_paths ignore) levels)"
proof (induction levels arbitrary: acc)
  case Nil
  then show ?case by simp
next
  case (Cons l levels)
  show ?case
  proof (cases "length (data_paths ! l) = 1 \<and> data_paths ! l ! 0 \<notin> set ignore")
    case False
    with Cons.prems have "prune_levels data data_paths ignore levels acc = Inr res"
      by (auto simp: Let_def split: if_splits)
    from Cons.IH [OF this] False show ?thesis by (auto simp: prunable_def)
  next
    case True
    with Cons.prems obtain keep where
      k: "prune_keep data (data_paths ! l ! 0) (getPrefixes data l) = Inr keep" and
      r: "prune_levels data data_paths ignore levels
            (if \<not> keep then acc @ [(l, data_paths ! l ! 0)] else acc) = Inr res"
      by (auto simp: Let_def split: sum.splits)
    from Cons.IH [OF r] k True show ?thesis by (auto simp: prunable_def)
  qed
qed

lemma fold_update_fresh:
  "distinct (map fst (acc @ sub)) \<Longrightarrow>
   fold (\<lambda>x. AList.update (fst x) (snd x)) sub acc = acc @ sub"
proof (induction sub arbitrary: acc)
  case Nil
  then show ?case by simp
next
  case (Cons x sub)
  from Cons.prems have "fst x \<notin> fst ` set acc" by auto
  then have u: "AList.update (fst x) (snd x) acc = acc @ [x]" by (simp add: update_fresh)
  from Cons.prems have "distinct (map fst ((acc @ [x]) @ sub))" by simp
  from Cons.IH [OF this] u show ?case by simp
qed

lemma put_put_path: "node_at work path = Some x \<Longrightarrow> put work path v = put_path work path v"
proof (induction path arbitrary: work)
  case Nil
  then show ?case by simp
next
  case (Cons k path)
  then obtain kvs w where w: "work = PDict kvs" "map_of kvs k = Some w" "node_at w path = Some x"
    by (cases work) (auto split: option.splits)
  from Cons.IH [OF w(3)] w(1,2) show ?case by simp
qed

lemma put_path_twice:
  "containers_along w p \<Longrightarrow> put_path (put_path w p a) p b = put_path w p b"
proof (induction w p a rule: put_path.induct)
  case (2 kvs k p v)
  define w0 where "w0 = (case map_of kvs k of None \<Rightarrow> PDict [] | Some w \<Rightarrow> w)"
  from "2.prems" have "containers_along w0 p" by (auto simp: w0_def split: option.splits)
  from "2.IH" [OF this [unfolded w0_def]] show ?case
    by (simp add: update_conv' AList.update_last)
qed (auto elim: containers_along.elims)


lemma dicts_above_mono: "dicts_above n T \<Longrightarrow> m \<le> n \<Longrightarrow> dicts_above m T"
  unfolding dicts_above_def by (meson less_le_trans)

lemma removeLevel_step:
  assumes inv: "level_inv level label T work D" and lp: "length p = level" and pD: "p \<notin> D"
    and node: "node_at T p = Some (PDict [(label, d)])" and wfT: "well_formed T"
    and top: "level = 0 \<longrightarrow> is_dict d"
  shows "\<exists>w' leaf' att. removeLevel_keys p [label] (work, [(label, d)], True) = Inr (w', leaf', att) \<and>
     (if att then put w' p (PDict leaf') else w') = put_path work p d \<and>
     level_inv level label T (put_path work p d) (insert p D)"
proof -
  from inv have wf: "well_formed work" and da: "dicts_above level work"
    and nodes: "\<forall>q. length q = level \<longrightarrow>
        (if q \<in> D then (\<exists>d. node_at T q = Some (PDict [(label, d)]) \<and> node_at work q = Some d)
         else node_at work q = node_at T q)"
    and above: "\<forall>q. length q < level \<longrightarrow> same_node (node_at work q) (node_at T q)"
    by (simp_all add: level_inv_def)
  from nodes lp pD node have nw: "node_at work p = Some (PDict [(label, d)])" by simp
  then have ca: "containers_along work p" by (rule node_at_containers)
  from well_formed_node [OF wfT node] have wfd: "well_formed d" by simp
  let ?w = "put_path work p d"
  have keys: "\<exists>w' leaf' att. removeLevel_keys p [label] (work, [(label, d)], True) = Inr (w', leaf', att) \<and>
     (if att then put w' p (PDict leaf') else w') = ?w"
  proof (cases "is_dict d")
    case True
    then obtain sub where d: "d = PDict sub" by (cases d) auto
    with wfd have "distinct (map fst ([] @ sub))" by simp
    from fold_update_fresh [OF this]
    have "fold (\<lambda>x. AList.update (fst x) (snd x)) sub [] = sub" by simp
    with d put_put_path [OF nw, of "PDict sub"] show ?thesis
      by (intro exI [of _ work] exI [of _ sub] exI [of _ True]) simp
  next
    case False
    with top lp have pne: "p \<noteq> []" by auto
    let ?e = "put_path work p (PDict [])"
    from put_put_path [OF nw] have e: "put work p (PDict []) = ?e" .
    from node_at_put_path [OF ca, of "PDict []" "[]"] have "node_at ?e p = Some (PDict [])" by simp
    then have "containers_along ?e p" by (rule node_at_containers)
    from setLeaf_put_path [OF pne this] put_path_twice [OF ca]
    have s: "setLeaf ?e p d = Inr ?w" by simp
    from False e s show ?thesis
      by (intro exI [of _ ?w] exI [of _ "[]"] exI [of _ False]) (cases d; simp)
  qed
  from wf wfd have wf': "well_formed ?w" by (rule well_formed_put_path)
  from dicts_above_put_path [OF da ca] lp have da': "dicts_above level ?w" by simp
  have here: "node_at ?w p = Some d" using node_at_put_path [OF ca, of d "[]"] by simp
  have other: "node_at ?w q = node_at work q" if "length q = level" "q \<noteq> p" for q
    using that lp by (intro node_at_put_path_other [OF ca]) auto
  have nodes': "\<forall>q. length q = level \<longrightarrow>
        (if q \<in> insert p D
         then (\<exists>d. node_at T q = Some (PDict [(label, d)]) \<and> node_at ?w q = Some d)
         else node_at ?w q = node_at T q)"
  proof (intro allI impI)
    fix q :: "key list" assume lq: "length q = level"
    show "if q \<in> insert p D
         then (\<exists>d. node_at T q = Some (PDict [(label, d)]) \<and> node_at ?w q = Some d)
         else node_at ?w q = node_at T q"
    proof (cases "q = p")
      case True
      with node here show ?thesis by simp
    next
      case False
      with other [OF lq] nodes lq show ?thesis by simp
    qed
  qed
  have above': "\<forall>q. length q < level \<longrightarrow> same_node (node_at ?w q) (node_at T q)"
  proof (intro allI impI)
    fix q :: "key list" assume lq: "length q < level"
    with above have sT: "same_node (node_at work q) (node_at T q)" by simp
    from lq lp have qp: "q \<noteq> p" by auto
    have "same_node (node_at ?w q) (node_at work q)"
    proof (cases "take (length q) p = q")
      case True
      from nw have "node_at work p \<noteq> None" by simp
      from node_at_put_path_above [OF ca this True qp] show ?thesis .
    next
      case False
      from lq lp have "take (length p) q \<noteq> p" by auto
      from node_at_put_path_other [OF ca this False] show ?thesis by simp
    qed
    from this sT show "same_node (node_at ?w q) (node_at T q)" by (rule same_node_trans)
  qed
  from wf' da' nodes' above' have "level_inv level label T ?w (insert p D)"
    unfolding level_inv_def by blast
  with keys show ?thesis by blast
qed

lemma removeLevel_paths_inv:
  assumes wfT: "well_formed T"
    and sole: "\<forall>q. length q = level \<and> node_at T q \<noteq> None \<longrightarrow>
        (\<exists>d. node_at T q = Some (PDict [(label, d)]) \<and> (level = 0 \<longrightarrow> is_dict d))"
  shows "distinct ps \<Longrightarrow> set ps \<inter> D = {} \<Longrightarrow> \<forall>p \<in> set ps. length p = level \<Longrightarrow>
     level_inv level label T work D \<Longrightarrow>
     \<exists>work'. removeLevel_paths ps work = Inr work' \<and>
       level_inv level label T work' (D \<union> {p \<in> set ps. node_at T p \<noteq> None})"
proof (induction ps arbitrary: work D)
  case Nil
  then show ?case by simp
next
  case (Cons p ps)
  from Cons.prems have lp: "length p = level" and pD: "p \<notin> D" and dps: "distinct ps"
    and pps: "p \<notin> set ps" and rest: "\<forall>p \<in> set ps. length p = level" and dis: "set ps \<inter> D = {}"
    by auto
  from Cons.prems(4) have da: "dicts_above level work"
    and nodes: "\<forall>q. length q = level \<longrightarrow>
        (if q \<in> D then (\<exists>d. node_at T q = Some (PDict [(label, d)]) \<and> node_at work q = Some d)
         else node_at work q = node_at T q)"
    by (simp_all add: level_inv_def)
  from nodes lp pD have nw: "node_at work p = node_at T p" by simp
  from getLeaf_node_at [OF da, of p] lp
  have gl: "getLeaf work p = Inr (none_to_PNone (node_at T p))" by (simp add: nw)
  show ?case
  proof (cases "node_at T p")
    case None
    with gl have s: "removeLevel_paths (p # ps) work = removeLevel_paths ps work"
      by (simp add: none_to_PNone_def)
    from Cons.IH [OF dps dis rest Cons.prems(4)] obtain work' where
      r: "removeLevel_paths ps work = Inr work'"
      and inv': "level_inv level label T work' (D \<union> {p \<in> set ps. node_at T p \<noteq> None})"
      by blast
    from None have "D \<union> {q \<in> set (p # ps). node_at T q \<noteq> None} =
        D \<union> {q \<in> set ps. node_at T q \<noteq> None}" by auto
    with s r inv' show ?thesis by simp
  next
    case (Some w)
    with sole lp obtain d where d: "node_at T p = Some (PDict [(label, d)])"
      and top: "level = 0 \<longrightarrow> is_dict d" by fastforce
    from removeLevel_step [OF Cons.prems(4) lp pD d wfT top] obtain w' leaf' att where
      k: "removeLevel_keys p [label] (work, [(label, d)], True) = Inr (w', leaf', att)"
      and t: "(if att then put w' p (PDict leaf') else w') = put_path work p d"
      and inv1: "level_inv level label T (put_path work p d) (insert p D)"
      by blast
    from gl d k t
    have s: "removeLevel_paths (p # ps) work = removeLevel_paths ps (put_path work p d)"
      by (simp add: none_to_PNone_def)
    from dis pps have dis': "set ps \<inter> insert p D = {}" by auto
    from Cons.IH [OF dps dis' rest inv1] obtain work' where
      r: "removeLevel_paths ps (put_path work p d) = Inr work'"
      and inv': "level_inv level label T work' (insert p D \<union> {p \<in> set ps. node_at T p \<noteq> None})"
      by blast
    from d have "D \<union> {q \<in> set (p # ps). node_at T q \<noteq> None} =
        insert p D \<union> {q \<in> set ps. node_at T q \<noteq> None}" by auto
    with s r inv' show ?thesis by simp
  qed
qed

lemma distinct_unique_from: "distinct (unique_from s xs)"
  by (induction xs arbitrary: s) (auto simp: set_unique_from)

lemma getPaths_loop_distinct: "\<forall>l \<in> set (getPaths_loop xs). distinct l"
proof (induction xs rule: getPaths_loop.induct)
  case (1 this_level)
  show ?case
  proof (cases "fst (sweep this_level) = []")
    case True
    then show ?thesis by (subst getPaths_loop.simps) simp
  next
    case False
    from "1.IH" [OF False] False show ?thesis
      by (subst getPaths_loop.simps) (simp add: unique_def distinct_unique_from)
  qed
qed

lemma removeLevel_collapsed:
  assumes wfT: "well_formed T" and da: "dicts_above level T" and l: "level \<le> length (getPaths T)"
    and sole: "\<forall>q. length q = level \<and> node_at T q \<noteq> None \<longrightarrow>
        (\<exists>d. node_at T q = Some (PDict [(label, d)]) \<and> (level = 0 \<longrightarrow> is_dict d))"
  shows "\<exists>T'. removeLevel T level = Inr T' \<and> collapsed level label T T' \<and> well_formed T'"
proof -
  define ps where "ps = getPrefixes T level"
  have dps: "distinct ps"
    unfolding ps_def getPrefixes_def
  proof (rule distinct_product_lists, rule ballI)
    fix xs assume "xs \<in> set (take level (getPaths T))"
    then have "xs \<in> set (getPaths T)" by (rule in_set_takeD)
    with getPaths_loop_distinct [of "[T]"] show "distinct xs" by (simp add: getPaths_def)
  qed
  have lps: "\<forall>p \<in> set ps. length p = level"
    using l by (auto simp: ps_def getPrefixes_def dest!: in_set_product_lists_length)
  have inv0: "level_inv level label T T {}"
    using wfT da by (simp add: level_inv_def)
  from removeLevel_paths_inv [OF wfT sole dps _ lps inv0] obtain T' where
    r: "removeLevel_paths ps T = Inr T'"
    and inv: "level_inv level label T T' ({} \<union> {p \<in> set ps. node_at T p \<noteq> None})"
    by blast
  have cov: "q \<in> set ps" if lq: "length q = level" and nq: "node_at T q = Some w" for q w
  proof (cases "q = []")
    case True
    with lq show ?thesis by (simp add: ps_def getPrefixes_def)
  next
    case False
    from getPaths_loop_covers [of T "[T]" q w] nq False da wfT lq
    have c: "\<forall>k < length q. q ! k \<in> set (getPaths T ! k)" by (simp add: getPaths_def)
    from lq l c have "list_all2 (\<lambda>x ys. x \<in> set ys) q (take level (getPaths T))"
      by (simp add: list_all2_conv_all_nth)
    then show ?thesis by (simp add: ps_def getPrefixes_def product_lists_set)
  qed
  from inv have nodes: "\<forall>q. length q = level \<longrightarrow>
        (if q \<in> {p \<in> set ps. node_at T p \<noteq> None}
         then (\<exists>d. node_at T q = Some (PDict [(label, d)]) \<and> node_at T' q = Some d)
         else node_at T' q = node_at T q)"
    and above: "\<forall>q. length q < level \<longrightarrow> same_node (node_at T' q) (node_at T q)"
    by (simp_all add: level_inv_def)
  have "node_at T q = None \<and> node_at T' q = None \<or>
        (\<exists>d. node_at T q = Some (PDict [(label, d)]) \<and> node_at T' q = Some d)"
    if lq: "length q = level" for q
  proof (cases "node_at T q")
    case None
    with nodes lq show ?thesis by simp
  next
    case (Some w)
    with cov [OF lq] have "q \<in> {p \<in> set ps. node_at T p \<noteq> None}" by simp
    with nodes lq show ?thesis by simp
  qed
  with above have "collapsed level label T T'" unfolding collapsed_def by blast
  moreover from r have "removeLevel T level = Inr T'"
    by (simp add: removeLevel_def ps_def)
  moreover from inv have "well_formed T'" by (simp add: level_inv_def)
  ultimately show ?thesis by blast
qed


lemma getPrefixes_covers:
  assumes wfT: "well_formed T" and da: "dicts_above level T" and l: "level \<le> length (getPaths T)"
    and lq: "length q = level" and nq: "node_at T q = Some w"
  shows "q \<in> set (getPrefixes T level)"
proof (cases "q = []")
  case True
  with lq show ?thesis by (simp add: getPrefixes_def)
next
  case False
  from getPaths_loop_covers [of T "[T]" q w] nq False da wfT lq
  have c: "\<forall>k < length q. q ! k \<in> set (getPaths T ! k)" by (simp add: getPaths_def)
  from lq l c have "list_all2 (\<lambda>x ys. x \<in> set ys) q (take level (getPaths T))"
    by (simp add: list_all2_conv_all_nth)
  then show ?thesis by (simp add: getPrefixes_def product_lists_set)
qed

lemma sole_key_dict:
  assumes "sole_key (PDict kvs) label"
  shows "\<exists>d. kvs = [(label, d)]"
proof -
  from assms have l: "length kvs \<le> 1" and m: "label \<in> fst ` set kvs"
    by (auto simp: sole_key_def)
  from m obtain x rest where "kvs = x # rest" by (cases kvs) auto
  with l m show ?thesis by (cases x) auto
qed

lemma prunable_sole:
  assumes wfT: "well_formed T" and da: "dicts_above n T" and n: "n = length (getPaths T)"
    and L: "L < n"
    and keep: "prune_keep T label (getPrefixes T L) = Inr False"
  shows "\<forall>q. length q = L \<and> node_at T q \<noteq> None \<longrightarrow> (\<exists>d. node_at T q = Some (PDict [(label, d)]))"
proof (intro allI impI)
  fix q assume a: "length q = L \<and> node_at T q \<noteq> None"
  then obtain w where lq: "length q = L" and nq: "node_at T q = Some w" by auto
  from da L have daL: "dicts_above L T" by (auto intro: dicts_above_mono)
  from getPrefixes_covers [OF wfT daL _ lq nq] L n have "q \<in> set (getPrefixes T L)" by simp
  with keep obtain leaves where gl: "getLeaf T q = Inr leaves"
    and sk: "leaves = PNone \<or> sole_key leaves label"
    unfolding prune_keep_False by blast
  from getLeaf_node_at [OF daL, of q] lq nq gl have lw: "leaves = w"
    by (simp add: none_to_PNone_def)
  from da L lq nq have "is_dict w" by (auto simp: dicts_above_def)
  then obtain kvs where w: "w = PDict kvs" by (cases w) auto
  with sk lw sole_key_dict [of kvs label] obtain d where kvs: "kvs = [(label, d)]" by auto
  with nq w show "\<exists>d. node_at T q = Some (PDict [(label, d)])" by simp
qed

lemma prune_remove_positive:
  "prune_remove xs data nlevels acc = Inr (data', pruned) \<Longrightarrow> \<forall>x \<in> set xs. fst x \<noteq> 0 \<Longrightarrow>
   pruned = acc @ xs"
proof (induction xs arbitrary: data nlevels acc)
  case Nil
  then show ?case by simp
next
  case (Cons x xs)
  obtain l lab where x: "x = (l, lab)" by (cases x)
  with Cons.prems obtain d where "prune_remove xs d (nlevels - 1) (acc @ [(l, lab)]) = Inr (data', pruned)"
    by (auto split: sum.splits)
  from Cons.IH [OF this] Cons.prems(2) x show ?case by simp
qed

lemma prune_remove_last_zero:
  "prune_remove (xs @ [(0, lab)]) data nlevels acc = Inr (data', pruned) \<Longrightarrow>
   \<forall>x \<in> set xs. fst x \<noteq> 0 \<Longrightarrow>
   pruned = acc @ xs @ (if nlevels - length xs = 1 then [] else [(0, lab)])"
proof (induction xs arbitrary: data nlevels acc)
  case Nil
  then show ?case by (auto split: sum.splits if_splits)
next
  case (Cons x xs)
  obtain l lab' where x: "x = (l, lab')" by (cases x)
  with Cons.prems obtain d where
    "prune_remove (xs @ [(0, lab)]) d (nlevels - 1) (acc @ [(l, lab')]) = Inr (data', pruned)"
    by (auto split: sum.splits)
  from Cons.IH [OF this] Cons.prems(2) x show ?case by simp
qed


lemma collapsed_node:
  assumes c: "collapsed L lab T T1" and lq: "length q = L"
  shows "node_at T1 (q @ r) = node_at T (q @ lab # r)"
proof -
  from c lq have "node_at T q = None \<and> node_at T1 q = None \<or>
      (\<exists>d. node_at T q = Some (PDict [(lab, d)]) \<and> node_at T1 q = Some d)"
    by (simp add: collapsed_def)
  then show ?thesis by (auto simp: node_at_append)
qed

lemma same_node_dict: "same_node (Some v) (Some (PDict a)) \<Longrightarrow> \<exists>b. v = PDict b \<and> map fst b = map fst a"
  by (cases v) auto

lemma collapsed_uniform:
  assumes wf: "well_formed T" and pb: "payloads_below m T" and L: "L < m"
    and c: "collapsed L lab T T1" and wf1: "well_formed T1"
  shows "payloads_below (m - 1) T1"
proof -
  from pb have da: "dicts_above m T" by (rule payloads_below_dicts_above)
  have deep: "node_at T1 p = node_at T (take L p @ lab # drop L p)" if "L \<le> length p" for p
  proof -
    from that have "length (take L p) = L" by simp
    from collapsed_node [OF c this, of "drop L p"] show ?thesis by simp
  qed
  have da1: "dicts_above (m - 1) T1"
    unfolding dicts_above_def
  proof (intro allI impI)
    fix p v assume a: "length p < m - 1 \<and> node_at T1 p = Some v"
    show "is_dict v"
    proof (cases "length p < L")
      case True
      with c have sn: "same_node (node_at T1 p) (node_at T p)" by (simp add: collapsed_def)
      show ?thesis
      proof (cases "node_at T p")
        case None
        with sn a show ?thesis by simp
      next
        case (Some u)
        from a have "length p < m" by arith
        with da Some have "is_dict u" unfolding dicts_above_def by blast
        then obtain kvs where "u = PDict kvs" by (cases u) auto
        with sn a Some same_node_dict [of v kvs] show ?thesis by auto
      qed
    next
      case False
      then have "L \<le> length p" by simp
      from deep [OF this] a have "node_at T (take L p @ lab # drop L p) = Some v" by simp
      moreover from a False have "length (take L p @ lab # drop L p) < m" by auto
      ultimately show ?thesis using da unfolding dicts_above_def by blast
    qed
  qed
  have snd1: "sound w" if "length p = m - 1 \<and> node_at T1 p = Some w" for p w
  proof -
    from that L have lp: "L \<le> length p" by simp
    from deep [OF lp] that have "node_at T (take L p @ lab # drop L p) = Some w" by simp
    moreover from that L lp have "length (take L p @ lab # drop L p) = m" by auto
    ultimately show ?thesis using payloads_below_sound [OF pb] by blast
  qed
  from payloads_below_nodes [OF wf1 da1] snd1 show ?thesis by blast
qed

lemma collapsed_inhabited:
  assumes c: "collapsed L lab T T1" and L: "L < m"
    and E: "\<exists>q w. length q = m \<and> node_at T q = Some w"
  shows "\<exists>q w. length q = m - 1 \<and> node_at T1 q = Some w"
proof -
  from E obtain q w where q: "length q = m" "node_at T q = Some w" by blast
  define pre where "pre = take L q"
  define suf where "suf = drop L q"
  from q(1) L have lp: "length pre = L" and qs: "q = pre @ suf" and ls: "length suf = m - L"
    by (simp_all add: pre_def suf_def)
  from ls L obtain k r where suf: "suf = k # r" by (cases suf) auto
  from q(2) qs have np: "node_at T pre \<noteq> None" by (auto simp: node_at_append split: option.splits)
  from c lp have "node_at T pre = None \<and> node_at T1 pre = None \<or>
      (\<exists>d. node_at T pre = Some (PDict [(lab, d)]) \<and> node_at T1 pre = Some d)"
    by (simp add: collapsed_def)
  with np obtain d where d: "node_at T pre = Some (PDict [(lab, d)])" "node_at T1 pre = Some d"
    by auto
  from q(2) qs suf d(1) have "k = lab \<and> node_at d r = Some w"
    by (auto simp: node_at_append split: if_splits)
  with d(2) have "node_at T1 (pre @ r) = Some w" by (simp add: node_at_append)
  moreover from lp ls suf have "length (pre @ r) = m - 1" by simp
  ultimately show ?thesis by blast
qed

lemma collapsed_sole:
  assumes c: "collapsed L lab T T1" and L': "L' < L"
    and sole: "\<forall>q. length q = L' \<and> node_at T q \<noteq> None \<longrightarrow> (\<exists>d. node_at T q = Some (PDict [(lab', d)]))"
  shows "\<forall>q. length q = L' \<and> node_at T1 q \<noteq> None \<longrightarrow> (\<exists>d. node_at T1 q = Some (PDict [(lab', d)]))"
proof (intro allI impI)
  fix q assume a: "length q = L' \<and> node_at T1 q \<noteq> None"
  then obtain v where v: "node_at T1 q = Some v" by auto
  from c a L' have sn: "same_node (node_at T1 q) (node_at T q)" by (simp add: collapsed_def)
  with v have "node_at T q \<noteq> None" by (cases "node_at T q") auto
  with sole a obtain d where d: "node_at T q = Some (PDict [(lab', d)])" by blast
  with sn v same_node_dict [of v "[(lab', d)]"] obtain b where b: "v = PDict b" "map fst b = [lab']"
    by auto
  from b(2) obtain d' where "b = [(lab', d')]" by (cases b) auto
  with v b(1) show "\<exists>d. node_at T1 q = Some (PDict [(lab', d)])" by simp
qed

lemma prune_remove_chain:
  "well_formed T \<Longrightarrow> payloads_below m T \<Longrightarrow> \<exists>q w. length q = m \<and> node_at T q = Some w \<Longrightarrow>
   sorted_wrt (>) (map fst xs) \<Longrightarrow>
   \<forall>x \<in> set xs. fst x < m \<and>
     (\<forall>q. length q = fst x \<and> node_at T q \<noteq> None \<longrightarrow> (\<exists>d. node_at T q = Some (PDict [(snd x, d)]))) \<Longrightarrow>
   prune_remove xs T m acc = Inr (T', pr) \<Longrightarrow>
   \<exists>ys. pr = acc @ ys \<and> collapsed_levels ys T T'"
proof (induction xs arbitrary: T m acc)
  case Nil
  then show ?case by simp
next
  case (Cons x xs)
  obtain L lab where x: "x = (L, lab)" by (cases x)
  from Cons.prems(4) x have srt: "sorted_wrt (>) (map fst xs)" and below: "\<forall>y \<in> set xs. fst y < L"
    by auto
  from Cons.prems(5) x have Lm: "L < m"
    and sole: "\<forall>q. length q = L \<and> node_at T q \<noteq> None \<longrightarrow> (\<exists>d. node_at T q = Some (PDict [(lab, d)]))"
    and rest: "\<forall>y \<in> set xs. fst y < m \<and>
     (\<forall>q. length q = fst y \<and> node_at T q \<noteq> None \<longrightarrow> (\<exists>d. node_at T q = Some (PDict [(snd y, d)])))"
    by auto
  show ?case
  proof (cases "L = 0 \<and> m = 1")
    case True
    with Cons.prems(6) x have "prune_remove xs T m acc = Inr (T', pr)" by simp
    from Cons.IH [OF Cons.prems(1-3) srt rest this] show ?thesis .
  next
    case False
    from Cons.prems(2) have da: "dicts_above m T" by (rule payloads_below_dicts_above)
    from da Lm have daL: "dicts_above L T" by (auto intro: dicts_above_mono)
    from Cons.prems(3) obtain q0 w0 where q0: "length q0 = m" "node_at T q0 = Some w0" by blast
    with Lm have "q0 \<noteq> []" by auto
    from getPaths_loop_covers [of T "[T]" q0 w0, OF _ q0(2) this] da Cons.prems(1) q0(1)
    have "m \<le> length (getPaths T)" by (simp add: getPaths_def)
    with Lm have lL: "L \<le> length (getPaths T)" by simp
    have sole': "\<forall>q. length q = L \<and> node_at T q \<noteq> None \<longrightarrow>
        (\<exists>d. node_at T q = Some (PDict [(lab, d)]) \<and> (L = 0 \<longrightarrow> is_dict d))"
    proof (intro allI impI)
      fix q assume a: "length q = L \<and> node_at T q \<noteq> None"
      with sole obtain d where d: "node_at T q = Some (PDict [(lab, d)])" by blast
      have "is_dict d" if "L = 0"
      proof -
        from d have "node_at T (q @ [lab]) = Some d" by (simp add: node_at_append)
        moreover from that a False Lm have "length (q @ [lab]) < m" by simp
        ultimately show ?thesis using da unfolding dicts_above_def by blast
      qed
      with d show "\<exists>d. node_at T q = Some (PDict [(lab, d)]) \<and> (L = 0 \<longrightarrow> is_dict d)" by simp
    qed
    from removeLevel_collapsed [OF Cons.prems(1) daL lL sole'] obtain T1 where
      r: "removeLevel T L = Inr T1" and c: "collapsed L lab T T1" and wf1: "well_formed T1"
      by blast
    from Cons.prems(6) x False r
    have pr: "prune_remove xs T1 (m - 1) (acc @ [(L, lab)]) = Inr (T', pr)" by auto
    from collapsed_uniform [OF Cons.prems(1,2) Lm c wf1] have pb1: "payloads_below (m - 1) T1" .
    from collapsed_inhabited [OF c Lm Cons.prems(3)]
    have E1: "\<exists>q w. length q = m - 1 \<and> node_at T1 q = Some w" .
    have rest1: "\<forall>y \<in> set xs. fst y < m - 1 \<and>
     (\<forall>q. length q = fst y \<and> node_at T1 q \<noteq> None \<longrightarrow> (\<exists>d. node_at T1 q = Some (PDict [(snd y, d)])))"
    proof
      fix y assume y: "y \<in> set xs"
      with below have yL: "fst y < L" by simp
      from y rest have "\<forall>q. length q = fst y \<and> node_at T q \<noteq> None \<longrightarrow>
          (\<exists>d. node_at T q = Some (PDict [(snd y, d)]))" by simp
      from collapsed_sole [OF c yL this] yL Lm
      show "fst y < m - 1 \<and>
     (\<forall>q. length q = fst y \<and> node_at T1 q \<noteq> None \<longrightarrow> (\<exists>d. node_at T1 q = Some (PDict [(snd y, d)])))"
        by simp
    qed
    from Cons.IH [OF wf1 pb1 E1 srt rest1 pr] obtain ys where
      ys: "pr = (acc @ [(L, lab)]) @ ys" "collapsed_levels ys T1 T'" by blast
    with c x show ?thesis by (intro exI [of _ "(L, lab) # ys"]) auto
  qed
qed

lemma getPaths_two_branches: "getPaths two_branches = [[KStr ''a'', KStr ''b''], [KStr ''x'']]"
  unfolding two_branches_def by (simp add: getPaths_def getPaths_loop.simps unique_def)

lemma prune_two_branches:
  "prune two_branches [] = Inr (PDict [(KStr ''a'', PInt 1), (KStr ''b'', PInt 2)], [(1, KStr ''x'')])"
  unfolding two_branches_def
  by (simp add: prune_def getPaths_def getPaths_loop.simps unique_def getPrefixes_def removeLevel_def)

text \<open>
  C1 as stated fails: in \<^verbatim>\<open>{"a": {"x": 1}, "b": {"x": 2}}\<close> level 1 has the one key
  \<^verbatim>\<open>x\<close>, and at neither prefix does the node have more than one key or lack \<^verbatim>\<open>x\<close>,
  so the claim has the level kept; \<^verbatim>\<open>prune\<close> removes it and returns \<^verbatim>\<open>[(1, "x")]\<close>.
\<close>

theorem prune_collapses_sole_keys:
  "prune two_branches [] = Inr (PDict [(KStr ''a'', PInt 1), (KStr ''b'', PInt 2)], [(1, KStr ''x'')]) \<and>
   getPaths two_branches ! 1 = [KStr ''x''] \<and>
   getPrefixes two_branches 1 = [[KStr ''a''], [KStr ''b'']] \<and>
   \<not> (\<forall>prefix \<in> set (getPrefixes two_branches 1). \<exists>leaves n.
         getLeaf two_branches prefix = Inr leaves \<and>
         (py_len leaves = Inr n \<and> 1 < n \<or> py_contains leaves (KStr ''x'') = Inr False))"
  using prune_two_branches
  by (simp add: getPaths_two_branches getPrefixes_def) (simp add: two_branches_def)

text \<open>
  C1, amended: when \<^verbatim>\<open>prune\<close> returns, a level whose one key \<^verbatim>\<open>label\<close> is not ignored
  is among the removed levels exactly when every prefix of the level leads to nothing
  or to a node whose only key is \<^verbatim>\<open>label\<close> (so the level is kept as soon as one node
  has more than one key or lacks \<^verbatim>\<open>label\<close>), and, for level 0, unless it is the only
  level left once the deeper levels are removed. The tree and its levels are those
  left by \<^verbatim>\<open>removeEmptyLeaves\<close>. In a tree of uniform depth with distinct keys and
  without \<^verbatim>\<open>None\<close> or tabular payloads, the tree that \<^verbatim>\<open>prune\<close> leaves is that tree with the
  removed levels collapsed one after the other, the deepest first: every node of the
  level, which holds the one key \<^verbatim>\<open>label\<close>, is replaced by what stands under \<^verbatim>\<open>label\<close>, and
  every node above keeps its keys.
\<close>

theorem prune_collapses_iff:
  assumes p: "prune data0 ignore = Inr (data', pruned)"
    and d: "data = fst (removeEmptyLeaves data0)"
    and l: "level < length (getPaths data)"
    and lab: "getPaths data ! level = [label]"
    and ign: "label \<notin> set ignore"
  shows "((level, label) \<in> set pruned \<longleftrightarrow>
     (\<forall>prefix \<in> set (getPrefixes data level). \<exists>leaves.
         getLeaf data prefix = Inr leaves \<and> (leaves = PNone \<or> sole_key leaves label)) \<and>
     (level = 0 \<longrightarrow> length (getPaths data) - length (filter (\<lambda>x. fst x \<noteq> 0) pruned) \<noteq> 1)) \<and>
    (well_formed data \<and> payloads_below (length (getPaths data)) data \<longrightarrow>
       collapsed_levels pruned data data')"
proof -
  define paths where "paths = getPaths data"
  define n where "n = length paths"
  define f where "f = (\<lambda>l. (l, paths ! l ! 0))"
  define P where "P = prunable data paths ignore"
  from p d obtain ltp where
    ltp: "prune_levels data paths ignore [0..<n] [] = Inr ltp" and
    rem: "prune_remove (rev ltp) data n [] = Inr (data', pruned)"
    by (auto simp: prune_def Let_def paths_def n_def split: sum.splits)
  from prune_levels_eq [OF ltp] have ltp_eq: "ltp = map f (filter P [0..<n])"
    by (simp add: f_def P_def)
  have Pl: "P level \<longleftrightarrow> (\<forall>prefix \<in> set (getPrefixes data level). \<exists>leaves.
         getLeaf data prefix = Inr leaves \<and> (leaves = PNone \<or> sole_key leaves label))"
    using lab ign by (simp add: P_def prunable_def paths_def prune_keep_False)
  have fl: "f level = (level, label)" using lab by (simp add: f_def paths_def)
  have n0: "0 < n" using l by (auto simp: n_def paths_def)
  then have upt: "[0..<n] = 0 # [1..<n]" by (simp add: upt_conv_Cons)
  define ys where "ys = rev (map f (filter P [1..<n]))"
  have ys_pos: "\<forall>x \<in> set ys. fst x \<noteq> 0" by (auto simp: ys_def f_def)
  have mem: "(level, label) \<in> set ys \<longleftrightarrow> 0 < level \<and> P level"
    using l fl by (auto simp: ys_def f_def n_def paths_def)
  have iff: "(level, label) \<in> set pruned \<longleftrightarrow>
     (\<forall>prefix \<in> set (getPrefixes data level). \<exists>leaves.
         getLeaf data prefix = Inr leaves \<and> (leaves = PNone \<or> sole_key leaves label)) \<and>
     (level = 0 \<longrightarrow> length (getPaths data) - length (filter (\<lambda>x. fst x \<noteq> 0) pruned) \<noteq> 1)"
  proof (cases "P 0")
    case False
    then have "rev ltp = ys" by (simp add: ltp_eq upt ys_def)
    with rem prune_remove_positive [of ys data n "[]" data' pruned] ys_pos have pr: "pruned = ys" by simp
    show ?thesis
    proof (cases "level = 0")
      case True
      with False Pl mem pr show ?thesis by auto
    next
      case False
      with Pl mem pr show ?thesis by auto
    qed
  next
    case True
    then have "rev ltp = ys @ [(0, paths ! 0 ! 0)]" by (simp add: ltp_eq upt ys_def f_def)
    with rem prune_remove_last_zero [of ys "paths ! 0 ! 0" data n "[]" data' pruned] ys_pos
    have pr: "pruned = ys @ (if n - length ys = 1 then [] else [(0, paths ! 0 ! 0)])" by simp
    have flt: "filter (\<lambda>x. fst x \<noteq> 0) pruned = ys"
      using ys_pos by (auto simp: pr filter_id_conv)
    show ?thesis
    proof (cases "level = 0")
      case l0: True
      with fl have "paths ! 0 ! 0 = label" by (simp add: f_def)
      with l0 True Pl pr flt ys_pos show ?thesis by (auto simp: n_def paths_def)
    next
      case False
      with Pl mem pr show ?thesis by auto
    qed
  qed
  have chain: "collapsed_levels pruned data data'"
    if wf: "well_formed data" and pb: "payloads_below n data"
  proof -
    from pb have da: "dicts_above n data" by (rule payloads_below_dicts_above)
    from n0 obtain k where k: "n = Suc k" by (cases n) auto
    from getPaths_loop_inhabited [of k "[data]"] da wf k
    have E: "\<exists>q w. length q = n \<and> node_at data q = Some w"
      by (auto simp: getPaths_def n_def paths_def)
    have "sorted_wrt (<) (filter P [0..<n])" by (rule sorted_wrt_filter) simp
    moreover have "map fst ltp = filter P [0..<n]" by (simp add: ltp_eq f_def comp_def)
    ultimately have srt: "sorted_wrt (>) (map fst (rev ltp))"
      by (simp add: rev_map [symmetric] sorted_wrt_rev)
    have el: "\<forall>x \<in> set (rev ltp). fst x < n \<and>
       (\<forall>q. length q = fst x \<and> node_at data q \<noteq> None \<longrightarrow>
          (\<exists>d. node_at data q = Some (PDict [(snd x, d)])))"
    proof
      fix x assume "x \<in> set (rev ltp)"
      then obtain L where L: "L < n" "P L" "x = f L" by (auto simp: ltp_eq)
      from L(2) have keep: "prune_keep data (paths ! L ! 0) (getPrefixes data L) = Inr False"
        by (simp add: P_def prunable_def)
      from prunable_sole [OF wf da _ L(1) keep [unfolded paths_def]]
      have "\<forall>q. length q = L \<and> node_at data q \<noteq> None \<longrightarrow>
          (\<exists>d. node_at data q = Some (PDict [(paths ! L ! 0, d)]))"
        by (simp add: n_def paths_def)
      with L show "fst x < n \<and>
       (\<forall>q. length q = fst x \<and> node_at data q \<noteq> None \<longrightarrow>
          (\<exists>d. node_at data q = Some (PDict [(snd x, d)])))"
        by (simp add: f_def)
    qed
    from prune_remove_chain [OF wf pb E srt el rem] show ?thesis by simp
  qed
  from iff chain show ?thesis unfolding n_def paths_def by blast
qed

text \<open>
  On \<^verbatim>\<open>{"a": {"x": 1}, "b": {"x": 2}}\<close> level 1 is removed, and the tree is left as
  \<^verbatim>\<open>{"a": 1, "b": 2}\<close>.
\<close>

theorem prune_collapses_iff_witness:
  "(1, KStr ''x'') \<in> set [(1::nat, KStr ''x'')] \<and>
   list_all (\<lambda>prefix. \<exists>leaves. getLeaf two_branches prefix = Inr leaves \<and>
               (leaves = PNone \<or> sole_key leaves (KStr ''x'')))
     (getPrefixes two_branches 1) \<and>
   collapsed_levels [(1, KStr ''x'')] two_branches
     (PDict [(KStr ''a'', PInt 1), (KStr ''b'', PInt 2)])"
proof -
  have r: "fst (removeEmptyLeaves two_branches) = two_branches"
    by (simp add: two_branches_def)
  have p: "prune two_branches [] =
      Inr (PDict [(KStr ''a'', PInt 1), (KStr ''b'', PInt 2)], [(1, KStr ''x'')])"
    by (rule prune_two_branches)
  have wf: "well_formed two_branches" by (simp add: two_branches_def)
  have pb: "payloads_below (length (getPaths two_branches)) two_branches"
    by (simp add: getPaths_two_branches) (simp add: two_branches_def)
  from prune_collapses_iff [OF p r [symmetric], of 1 "KStr ''x''"] wf pb
  show ?thesis by (simp add: getPaths_two_branches list_all_iff)
qed

end
